theory Spec2Isabelle
  imports Complex_Main "HOL-Library.Log_Nat"
begin

section \<open>JavaScript numbers\<close>

text \<open>
  The dashboard and the tracking script compute with JavaScript numbers, which are IEEE 754
  binary64 values. A finite double is a rational number, so numbers are modelled as \<open>rat\<close>
  and every arithmetic operation rounds its exact result to the nearest double, ties to the
  even significand (\<open>fl\<close>). The model covers the normal range of binary64: it has no
  overflow to Infinity, no subnormal numbers and no NaN. All quotients and products formed by
  the code modelled below stay far inside that range for array lengths below \<open>2 ^ 32\<close>.
\<close>

text \<open>\<open>expo x\<close> is the binary exponent of a non-zero \<open>x\<close>: the integer \<open>e\<close> with
  \<open>2 ^ e \<le> \<bar>x\<bar> < 2 ^ (e + 1)\<close>, found from the bit lengths of numerator and denominator.\<close>

definition expo :: "rat \<Rightarrow> int" where
  "expo x = (let (p, q) = quotient_of \<bar>x\<bar>;
                 d = int (floorlog 2 (nat p)) - int (floorlog 2 (nat q))
             in if 2 powi d \<le> \<bar>x\<bar> then d else d - 1)"

text \<open>Rounding to the nearest integer, ties to even.\<close>

definition rne :: "rat \<Rightarrow> int" where
  "rne m = (let f = \<lfloor>m\<rfloor>; r = m - of_int f
            in if r < 1 / 2 then f
               else if 1 / 2 < r then f + 1
               else if even f then f else f + 1)"

text \<open>Rounding to a 53-bit significand: the unit in the last place of \<open>x\<close> is
  \<open>2 ^ (expo x - 52)\<close>.\<close>

definition fl :: "rat \<Rightarrow> rat" where
  "fl x = (if x = 0 then 0
           else let u = 2 powi (expo x - 52) in of_int (rne (x / u)) * u)"

text \<open>The operators \<open>/\<close>, \<open>*\<close>, \<open>+\<close> and \<open>-\<close> on numbers. \<open>js_div\<close> is only used
  with a non-zero divisor (every division below is guarded by the code).\<close>

definition js_div :: "rat \<Rightarrow> rat \<Rightarrow> rat" where
  "js_div a b = fl (a / b)"

definition js_mul :: "rat \<Rightarrow> rat \<Rightarrow> rat" where
  "js_mul a b = fl (a * b)"

definition js_add :: "rat \<Rightarrow> rat \<Rightarrow> rat" where
  "js_add a b = fl (a + b)"

definition js_sub :: "rat \<Rightarrow> rat \<Rightarrow> rat" where
  "js_sub a b = fl (a - b)"

text \<open>\<open>Math.round\<close>: the nearest integer, a tie going towards plus infinity.\<close>

definition Math_round :: "rat \<Rightarrow> int" where
  "Math_round x = \<lfloor>x + 1 / 2\<rfloor>"

section \<open>Rows of \<open>scroll_events\<close> as the dashboard loads them\<close>

text \<open>
  One row of the \<open>scroll_events\<close> table with the columns the dashboard selects. The column
  \<open>scroll_depth\<close> is \<open>NOT NULL\<close>; the other columns are nullable.
\<close>

record event =
  occurred_at :: string
  scroll_depth :: int
  total_time_on_page :: "int option"
  max_scroll_depth :: "int option"
  scroll_events_count :: "int option"
  ua :: "string option"
  viewport_w :: "int option"
  viewport_h :: "int option"
  ip_address :: "string option"

section \<open>Milestone statistics (\<open>milestoneStats\<close>, dashboard/page.tsx)\<close>

record milestone_stats =
  p25 :: int
  p50 :: int
  p75 :: int
  p100 :: int
  total :: nat

text \<open>\<open>const total = events.length || 1\<close>\<close>

definition total_of :: "event list \<Rightarrow> nat" where
  "total_of events = (if length events = 0 then 1 else length events)"

text \<open>\<open>events.filter((e) => e.scroll_depth >= m).length\<close>\<close>

definition reached :: "event list \<Rightarrow> int \<Rightarrow> nat" where
  "reached events m = length (filter (\<lambda>e. m \<le> scroll_depth e) events)"

text \<open>\<open>perc(m) = Math.round((events.filter(...).length / total) * 100)\<close>\<close>

definition perc :: "event list \<Rightarrow> int \<Rightarrow> int" where
  "perc events m =
     Math_round (js_mul (js_div (of_nat (reached events m)) (of_nat (total_of events))) 100)"

definition milestoneStats :: "event list \<Rightarrow> milestone_stats" where
  "milestoneStats events =
     \<lparr>p25 = perc events 25, p50 = perc events 50, p75 = perc events 75,
      p100 = perc events 100, total = length events\<rparr>"

text \<open>An event of which only the scroll depth is set.\<close>

definition depth_event :: "int \<Rightarrow> event" where
  "depth_event d =
     \<lparr>occurred_at = [], scroll_depth = d, total_time_on_page = None, max_scroll_depth = None,
      scroll_events_count = None, ua = None, viewport_w = None, viewport_h = None,
      ip_address = None\<rparr>"

section \<open>Device classification (\<open>getDeviceType\<close>, dashboard/page.tsx)\<close>

text \<open>
  Strings are lists of code units; a \<open>char\<close> is a code unit below 256 (the Latin-1 range,
  which holds the user-agent strings that browsers report and the addresses taken from the
  forwarding headers).
  \<open>toLowerCase\<close> maps the capital letters of that range, \<open>A\<close> to \<open>Z\<close> and U+00C0 to
  U+00DE without the multiplication sign, to their small letters.
\<close>

definition toLowerCase_unit :: "char \<Rightarrow> char" where
  "toLowerCase_unit c =
     (let n = of_char c :: nat
      in if (65 \<le> n \<and> n \<le> 90) \<or> (192 \<le> n \<and> n \<le> 222 \<and> n \<noteq> 215)
         then char_of (n + 32) else c)"

definition toLowerCase :: "string \<Rightarrow> string" where
  "toLowerCase s = map toLowerCase_unit s"

text \<open>
  The regular expressions have the flag \<open>i\<close>: two code units match when their canonical
  forms agree. The canonical form of a code unit is its upper-case mapping; U+00FF and
  U+00B5 have theirs outside the Latin-1 range, and U+00DF has none.
\<close>

definition canonicalize :: "char \<Rightarrow> nat" where
  "canonicalize c =
     (let n = of_char c :: nat
      in if (97 \<le> n \<and> n \<le> 122) \<or> (224 \<le> n \<and> n \<le> 254 \<and> n \<noteq> 247) then n - 32
         else if n = 255 then 376
         else if n = 181 then 924
         else n)"

text \<open>A literal pattern matches at the start of a string.\<close>

fun matches_at :: "string \<Rightarrow> string \<Rightarrow> bool" where
  "matches_at [] s = True"
| "matches_at (p # ps) [] = False"
| "matches_at (p # ps) (c # cs) = (canonicalize p = canonicalize c \<and> matches_at ps cs)"

text \<open>\<open>/pat/i.test(s)\<close> for a literal pattern: it matches at some position.\<close>

fun found_in :: "string \<Rightarrow> string \<Rightarrow> bool" where
  "found_in pat [] = matches_at pat []"
| "found_in pat (c # cs) = (matches_at pat (c # cs) \<or> found_in pat cs)"

text \<open>The dot of a regular expression matches every code unit but a line terminator.\<close>

definition lineTerminator :: "char \<Rightarrow> bool" where
  "lineTerminator c = (of_char c = (10::nat) \<or> of_char c = (13::nat))"

text \<open>
  \<open>/android(?!.*mobile)/i.test(s)\<close>: \<open>android\<close> matches at some position and
  \<open>mobile\<close> does not occur on the rest of that line.
\<close>

fun android_not_mobile :: "string \<Rightarrow> bool" where
  "android_not_mobile [] = False"
| "android_not_mobile (c # cs) =
     ((matches_at ''android'' (c # cs) \<and>
       \<not> found_in ''mobile'' (takeWhile (\<lambda>x. \<not> lineTerminator x) (drop 7 (c # cs))))
      \<or> android_not_mobile cs)"

text \<open>\<open>/android|webos|iphone|ipad|ipod|blackberry|iemobile|opera mini/i.test(s)\<close>\<close>

definition isMobile_re :: "string \<Rightarrow> bool" where
  "isMobile_re s =
     list_ex (\<lambda>alt. found_in alt s)
       [''android'', ''webos'', ''iphone'', ''ipad'', ''ipod'', ''blackberry'', ''iemobile'',
        ''opera mini'']"

text \<open>\<open>/ipad|android(?!.*mobile)/i.test(s)\<close>\<close>

definition isTablet_re :: "string \<Rightarrow> bool" where
  "isTablet_re s = (found_in ''ipad'' s \<or> android_not_mobile s)"

definition getDeviceType :: "string \<Rightarrow> rat \<Rightarrow> rat \<Rightarrow> string" where
  "getDeviceType ua' viewportW viewportH =
     (if ua' = [] then ''Unknown''
      else let userAgent = toLowerCase ua';
               isMobile = isMobile_re userAgent;
               isTablet = (isTablet_re userAgent \<or>
                           (768 \<le> viewportW \<and> viewportW \<le> 1024 \<and>
                            768 \<le> viewportH \<and> viewportH \<le> 1024))
           in if isTablet then ''Tablet'' else if isMobile then ''Mobile'' else ''Desktop'')"

section \<open>Per-device engagement statistics (\<open>engagementStats\<close>, dashboard/page.tsx)\<close>

text \<open>A nullable number used as a condition, and the idiom \<open>x || 0\<close>.\<close>

definition truthy :: "int option \<Rightarrow> bool" where
  "truthy v = (case v of None \<Rightarrow> False | Some n \<Rightarrow> n \<noteq> 0)"

definition or_zero :: "int option \<Rightarrow> int" where
  "or_zero v = (case v of None \<Rightarrow> 0 | Some n \<Rightarrow> n)"

definition or_empty :: "string option \<Rightarrow> string" where
  "or_empty v = (case v of None \<Rightarrow> [] | Some s \<Rightarrow> s)"

text \<open>
  The key \<open>`${event.total_time_on_page}-${event.max_scroll_depth}`\<close> of the session map.
  The decimal rendering of a pair of integers joined by \<open>-\<close> determines the pair, so the
  key is modelled by the pair itself.
\<close>

definition session_key :: "event \<Rightarrow> int option \<times> int option" where
  "session_key e = (total_time_on_page e, max_scroll_depth e)"

text \<open>\<open>if (!uniqueSessions.has(key)) uniqueSessions.set(key, event)\<close>; a \<open>Map\<close> keeps
  its entries in insertion order.\<close>

definition add_session ::
  "((int option \<times> int option) \<times> event) list \<Rightarrow> event \<Rightarrow> ((int option \<times> int option) \<times> event) list"
where
  "add_session uniqueSessions e =
     (if session_key e \<in> set (map fst uniqueSessions) then uniqueSessions
      else uniqueSessions @ [(session_key e, e)])"

definition sessionData :: "event list \<Rightarrow> event list" where
  "sessionData events =
     (let sessions = filter (\<lambda>e. truthy (total_time_on_page e) \<and> truthy (max_scroll_depth e)) events
      in map snd (foldl add_session [] sessions))"

record device_metrics =
  sessions :: nat
  avgTime :: int
  completionRate :: int
  activeRate :: int

definition zero_metrics :: device_metrics where
  "zero_metrics = \<lparr>sessions = 0, avgTime = 0, completionRate = 0, activeRate = 0\<rparr>"

text \<open>The objects \<open>deviceGroups\<close> and \<open>deviceStats\<close> have the keys \<open>desktop\<close>,
  \<open>mobile\<close> and \<open>tablet\<close>; they are association lists in key order.\<close>

definition deviceGroups_init :: "(string \<times> event list) list" where
  "deviceGroups_init = [(''desktop'', []), (''mobile'', []), (''tablet'', [])]"

definition deviceStats_init :: "(string \<times> device_metrics) list" where
  "deviceStats_init =
     [(''desktop'', zero_metrics), (''mobile'', zero_metrics), (''tablet'', zero_metrics)]"

text \<open>The body of \<open>sessionData.forEach\<close>: the session is pushed to
  \<open>deviceGroups[deviceType]\<close> when that property exists.\<close>

definition group_session :: "(string \<times> event list) list \<Rightarrow> event \<Rightarrow> (string \<times> event list) list" where
  "group_session deviceGroups session =
     (let deviceType = getDeviceType (or_empty (ua session))
                         (of_int (or_zero (viewport_w session)))
                         (of_int (or_zero (viewport_h session)))
      in case map_of deviceGroups deviceType of
           None \<Rightarrow> deviceGroups
         | Some g \<Rightarrow> map (\<lambda>(k, v). if k = deviceType then (k, v @ [session]) else (k, v)) deviceGroups)"

definition device_metrics_of :: "event list \<Rightarrow> device_metrics" where
  "device_metrics_of deviceSessions =
     \<lparr>sessions = length deviceSessions,
      avgTime = Math_round
        (js_div
          (js_div (foldl (\<lambda>sum s. js_add sum (of_int (or_zero (total_time_on_page s)))) 0 deviceSessions)
                  (of_nat (length deviceSessions)))
          1000),
      completionRate = Math_round
        (js_mul
          (js_div (of_nat (length (filter (\<lambda>s. 100 \<le> or_zero (max_scroll_depth s)) deviceSessions)))
                  (of_nat (length deviceSessions)))
          100),
      activeRate = Math_round
        (js_mul
          (js_div (of_nat (length (filter (\<lambda>s. 75 \<le> or_zero (max_scroll_depth s) \<and>
                                              10000 < or_zero (total_time_on_page s)) deviceSessions)))
                  (of_nat (length deviceSessions)))
          100)\<rparr>"

text \<open>The \<open>deviceStats\<close> field of \<open>engagementStats\<close>, with its two early returns.\<close>

definition deviceStats :: "event list \<Rightarrow> (string \<times> device_metrics) list" where
  "deviceStats events =
     (if length events = 0 then deviceStats_init
      else if length (sessionData events) = 0 then deviceStats_init
      else let deviceGroups = foldl group_session deviceGroups_init (sessionData events)
           in map (\<lambda>(deviceType, deviceSessions).
                     (deviceType,
                      if 0 < length deviceSessions then device_metrics_of deviceSessions
                      else zero_metrics))
                  deviceGroups)"

section \<open>Pseudo-geolocation (\<open>loadUserStats\<close>, dashboard/page.tsx)\<close>

record country_entry =
  code :: string
  name :: string
  weight :: int

definition countries :: "country_entry list" where
  "countries =
     [\<lparr>code = ''US'', name = ''United States'', weight = 20\<rparr>,
      \<lparr>code = ''IN'', name = ''India'', weight = 18\<rparr>,
      \<lparr>code = ''CN'', name = ''China'', weight = 15\<rparr>,
      \<lparr>code = ''NP'', name = ''Nepal'', weight = 15\<rparr>,
      \<lparr>code = ''GB'', name = ''United Kingdom'', weight = 8\<rparr>,
      \<lparr>code = ''DE'', name = ''Germany'', weight = 6\<rparr>,
      \<lparr>code = ''CA'', name = ''Canada'', weight = 5\<rparr>,
      \<lparr>code = ''AU'', name = ''Australia'', weight = 4\<rparr>,
      \<lparr>code = ''FR'', name = ''France'', weight = 3\<rparr>,
      \<lparr>code = ''JP'', name = ''Japan'', weight = 2\<rparr>]"

text \<open>\<open>ToInt32\<close>: the value modulo \<open>2 ^ 32\<close> in the signed 32-bit range.\<close>

definition toInt32 :: "int \<Rightarrow> int" where
  "toInt32 x = (x + 2 ^ 31) mod 2 ^ 32 - 2 ^ 31"

text \<open>
  One step of the \<open>reduce\<close>: \<open>a = (a << 5) - a + b.charCodeAt(0); return a & a\<close>.
  The shift works on 32-bit integers; subtraction and addition are exact on numbers of
  this size; \<open>a & a\<close> converts the sum back to a signed 32-bit integer.
\<close>

definition ipHash_step :: "int \<Rightarrow> char \<Rightarrow> int" where
  "ipHash_step a b = toInt32 (toInt32 (toInt32 a * 2 ^ 5) - a + of_char b)"

definition ipHash :: "string \<Rightarrow> int" where
  "ipHash ip_addr = foldl ipHash_step 0 ip_addr"

text \<open>\<open>Math.abs(ipHash) % 100\<close>\<close>

definition random_of :: "string \<Rightarrow> int" where
  "random_of ip_addr = \<bar>ipHash ip_addr\<bar> mod 100"

text \<open>The loop over \<open>countries\<close>: the entry at which it breaks, or \<open>None\<close> when it
  runs to the end without selecting.\<close>

fun select_loop :: "country_entry list \<Rightarrow> int \<Rightarrow> int \<Rightarrow> country_entry option" where
  "select_loop [] random cumulativeWeight = None"
| "select_loop (c # cs) random cumulativeWeight =
     (if random < cumulativeWeight + weight c then Some c
      else select_loop cs random (cumulativeWeight + weight c))"

text \<open>\<open>selectedCountry\<close> starts as \<open>countries[0]\<close> and is overwritten where the loop
  breaks.\<close>

definition selectedCountry :: "int \<Rightarrow> country_entry" where
  "selectedCountry random =
     (case select_loop countries random 0 of
        Some c \<Rightarrow> c
      | None \<Rightarrow> countries ! 0)"

record user_stat =
  ip :: string
  country :: string
  countryName :: string
  lastSeen :: string
  avatar :: string
  deviceType :: string

datatype js_error = TypeError

definition user_of :: "string \<Rightarrow> event \<Rightarrow> user_stat" where
  "user_of ip_addr e =
     \<lparr>ip = ip_addr,
      country = code (selectedCountry (random_of ip_addr)),
      countryName = name (selectedCountry (random_of ip_addr)),
      lastSeen = occurred_at e,
      avatar = ''https://api.dicebear.com/7.x/avataaars/svg?seed='' @ ip_addr,
      deviceType = getDeviceType (or_empty (ua e)) (of_int (or_zero (viewport_w e)))
                     (of_int (or_zero (viewport_h e)))\<rparr>"

text \<open>
  \<open>data.forEach\<close> over the fetched rows, filling the map \<open>uniqueUsers\<close>. A row whose
  \<open>ip_address\<close> is null is not in the map, and \<open>event.ip_address.split\<close> then throws a
  \<open>TypeError\<close>, which ends \<open>loadUserStats\<close> before \<open>setUserStats\<close>.
\<close>

fun collect_users :: "event list \<Rightarrow> (string \<times> user_stat) list \<Rightarrow> js_error + (string \<times> user_stat) list" where
  "collect_users [] uniqueUsers = Inr uniqueUsers"
| "collect_users (e # es) uniqueUsers =
     (case ip_address e of
        None \<Rightarrow> Inl TypeError
      | Some a \<Rightarrow>
          if a \<in> set (map fst uniqueUsers) then collect_users es uniqueUsers
          else collect_users es (uniqueUsers @ [(a, user_of a e)]))"

text \<open>\<open>setUserStats(Array.from(uniqueUsers.values()))\<close>\<close>

definition loadUserStats :: "event list \<Rightarrow> js_error + user_stat list" where
  "loadUserStats data =
     (case collect_users data [] of
        Inl err \<Rightarrow> Inl err
      | Inr uniqueUsers \<Rightarrow> Inr (map snd uniqueUsers))"

section \<open>The generated tracking script (api/tracker.js/route.ts)\<close>

text \<open>
  What \<open>getScrollDepth\<close> reads from the page: the scroll offsets, the six heights of
  \<open>document.body\<close> and \<open>document.documentElement\<close>, and the window height.
\<close>

record page_metrics =
  pageYOffset :: rat
  documentElement_scrollTop :: rat
  body_scrollHeight :: rat
  documentElement_scrollHeight :: rat
  body_offsetHeight :: rat
  documentElement_offsetHeight :: rat
  body_clientHeight :: rat
  documentElement_clientHeight :: rat
  innerHeight :: rat

text \<open>\<open>a || b\<close> on numbers: \<open>0\<close> is falsy.\<close>

definition js_or :: "rat \<Rightarrow> rat \<Rightarrow> rat" where
  "js_or a b = (if a \<noteq> 0 then a else b)"

definition getScrollDepth :: "page_metrics \<Rightarrow> int" where
  "getScrollDepth w =
     (let scrollTop = js_or (js_or (pageYOffset w) (documentElement_scrollTop w)) 0;
          docHeight =
            max (body_scrollHeight w) (max (documentElement_scrollHeight w)
              (max (body_offsetHeight w) (max (documentElement_offsetHeight w)
                (max (body_clientHeight w) (documentElement_clientHeight w)))));
          winHeight = js_or (js_or (innerHeight w) (documentElement_clientHeight w)) 0;
          total = max (js_sub docHeight winHeight) 1;
          depth = min 100 (Math_round (js_mul (js_div scrollTop total) 100))
      in depth)"

text \<open>The local variables \<open>scrollTop\<close>, \<open>docHeight\<close> and \<open>winHeight\<close> of
  \<open>getScrollDepth\<close> on their own, for stating what the function computes.\<close>

definition scrollTop_of :: "page_metrics \<Rightarrow> rat" where
  "scrollTop_of w = js_or (js_or (pageYOffset w) (documentElement_scrollTop w)) 0"

definition docHeight_of :: "page_metrics \<Rightarrow> rat" where
  "docHeight_of w =
     max (body_scrollHeight w) (max (documentElement_scrollHeight w)
       (max (body_offsetHeight w) (max (documentElement_offsetHeight w)
         (max (body_clientHeight w) (documentElement_clientHeight w)))))"

definition winHeight_of :: "page_metrics \<Rightarrow> rat" where
  "winHeight_of w = js_or (js_or (innerHeight w) (documentElement_clientHeight w)) 0"

text \<open>
  A call of \<open>post(depth, milestone)\<close>: the scroll depth sent, the milestone argument
  (\<open>None\<close> for \<open>undefined\<close>) and, for a milestone call, the session engagement fields
  \<open>maxScrollDepth\<close> and \<open>scrollEvents\<close> of the payload. The time fields of the
  payload (\<open>timestamp\<close>, \<open>timeOnPage\<close>, \<open>totalTimeOnPage\<close>, taken from
  \<open>Date.now()\<close>) and its constant fields (tracker id, page URL, device) are left out.
  The body of \<open>post\<close> is wrapped in \<open>try\<close> and \<open>catch\<close>; the model takes the browser
  calls in it (\<open>AbortController\<close>, \<open>fetch\<close>) as not throwing, so every call of
  \<open>post\<close> hands one event to \<open>fetch\<close>.
\<close>

record post_call =
  depth :: int
  milestone :: "int option"
  engagement :: "(int \<times> nat) option"

text \<open>The mutable variables of the script: \<open>maxDepth\<close>, the set \<open>fired\<close>, the length of
  \<open>scrollEvents\<close>, and the log of the events handed to \<open>fetch\<close>.\<close>

record tracker_state =
  maxDepth :: int
  fired :: "int set"
  scrollEvents_length :: nat
  sent :: "post_call list"

definition MILESTONES :: "int list" where
  "MILESTONES = [25, 50, 75, 100]"

definition post :: "int \<Rightarrow> int option \<Rightarrow> tracker_state \<Rightarrow> tracker_state" where
  "post d m s =
     (let n = Suc (scrollEvents_length s)
      in s\<lparr>scrollEvents_length := n,
           sent := sent s @
             [\<lparr>depth = d, milestone = m,
               engagement = (case m of None \<Rightarrow> None | Some _ \<Rightarrow> Some (maxDepth s, n))\<rparr>]\<rparr>)"

text \<open>\<open>for (const m of MILESTONES) if (maxDepth >= m && !fired.has(m)) { fired.add(m);
  post(maxDepth, m, true) }\<close>\<close>

fun milestone_loop :: "int list \<Rightarrow> tracker_state \<Rightarrow> tracker_state" where
  "milestone_loop [] s = s"
| "milestone_loop (m # ms) s =
     milestone_loop ms
       (if m \<le> maxDepth s \<and> m \<notin> fired s
        then post (maxDepth s) (Some m) (s\<lparr>fired := insert m (fired s)\<rparr>)
        else s)"

text \<open>The animation-frame callback of \<open>onScroll\<close>, run with the depth that
  \<open>getScrollDepth\<close> returned. The flag \<open>ticking\<close> lets at most one callback be pending:
  scroll and resize events that arrive meanwhile schedule nothing, so a page view is the
  sequence of the callbacks that run.\<close>

definition onScroll :: "int \<Rightarrow> tracker_state \<Rightarrow> tracker_state" where
  "onScroll d s =
     (if maxDepth s < d
      then milestone_loop MILESTONES (post d None (s\<lparr>maxDepth := d\<rparr>))
      else s)"

text \<open>The state after the script has loaded: \<open>post(0)\<close> has been called.\<close>

definition loaded :: tracker_state where
  "loaded = post 0 None \<lparr>maxDepth = 0, fired = {}, scrollEvents_length = 0, sent = []\<rparr>"

text \<open>One page view: the callbacks run in order with the depths they observe.\<close>

definition page_view :: "int list \<Rightarrow> tracker_state" where
  "page_view ds = foldl (\<lambda>s d. onScroll d s) loaded ds"

text \<open>The milestone events for \<open>m\<close> among the events sent.\<close>

definition milestone_events :: "int \<Rightarrow> tracker_state \<Rightarrow> post_call list" where
  "milestone_events m s = filter (\<lambda>p. milestone p = Some m) (sent s)"

section \<open>The ingestion endpoint (\<open>POST\<close>, api/track/route.ts)\<close>

text \<open>
  The request body after JSON decoding. A JSON number is a finite double and is modelled by
  \<open>rat\<close>; an optional key is an \<open>option\<close>.
\<close>

record engagement_info =
  eng_timeOnPage :: rat
  eng_maxDepth :: rat
  eng_scrollEvents :: rat
  eng_avgScrollSpeed :: rat

record device_info =
  device_ua :: "string option"
  width :: "rat option"
  height :: "rat option"

record track_body =
  trackerId :: string
  scrollDepth :: rat
  pageUrl :: string
  timestamp :: rat
  timeOnPage :: "rat option"
  totalTimeOnPage :: "rat option"
  maxScrollDepth :: "rat option"
  scrollEvents :: "rat option"
  body_engagement :: "engagement_info option"
  device :: "device_info option"

text \<open>
  What \<open>await request.json()\<close> yields: it throws on a body that is not JSON
  (\<open>Malformed\<close>); it returns a JSON value that lacks a required key or holds a value of
  another type than the schema names (\<open>Mistyped\<close>); or it returns an object whose keys have
  the types of the schema (\<open>Fields\<close>).
\<close>

datatype request_json = Malformed | Mistyped | Fields track_body

text \<open>The request: its body and the two headers the handler reads for the caller's
  address. The \<open>origin\<close> header only selects the CORS headers of the response, which are
  left out of the model.\<close>

record request =
  json :: request_json
  x_forwarded_for :: "string option"
  x_real_ip :: "string option"

text \<open>The two tables. A tracker is represented by its \<open>id\<close>; \<open>row_occurred_at\<close> holds
  the epoch milliseconds that the handler stores as an ISO string.\<close>

record scroll_event_row =
  row_tracker_id :: string
  row_scroll_depth :: rat
  row_page_url :: string
  row_occurred_at :: rat
  row_time_on_page :: "rat option"
  row_total_time_on_page :: "rat option"
  row_max_scroll_depth :: "rat option"
  row_scroll_events_count :: "rat option"
  row_engagement_data :: "engagement_info option"
  row_ua :: "string option"
  row_viewport_w :: "rat option"
  row_viewport_h :: "rat option"
  row_ip_address :: string

record storage =
  trackers :: "string list"
  scroll_events :: "scroll_event_row list"

text \<open>Whether the two storage calls of one request fail: the lookup
  \<open>from("trackers").select("id").eq("id", trackerId).maybeSingle()\<close> and the
  \<open>insert\<close> into \<open>scroll_events\<close>. A call that returns an error and a call that
  throws are answered alike, with 500 and \<open>{error: "Server error"}\<close>.\<close>

record db_faults =
  lookup_fails :: bool
  insert_fails :: bool

text \<open>The status and the \<open>error\<close> text of the response body.\<close>

datatype response =
  NoContent_204
  | BadRequest_400 string
  | NotFound_404 string
  | ServerError_500 string

definition is_integer :: "rat \<Rightarrow> bool" where
  "is_integer x = (x = of_int \<lfloor>x\<rfloor>)"

text \<open>\<open>z.number().int().min(0).optional()\<close>\<close>

definition opt_count :: "rat option \<Rightarrow> bool" where
  "opt_count v = (case v of None \<Rightarrow> True | Some x \<Rightarrow> is_integer x \<and> 0 \<le> x)"

text \<open>\<open>z.number().int().positive().max(20000).optional()\<close>\<close>

definition opt_dimension :: "rat option \<Rightarrow> bool" where
  "opt_dimension v = (case v of None \<Rightarrow> True | Some x \<Rightarrow> is_integer x \<and> 0 < x \<and> x \<le> 20000)"

text \<open>
  \<open>trackEventSchema.safeParse(body).success\<close> for a body whose keys have the types of the
  schema. \<open>z.string().url()\<close> is the parameter \<open>valid_url\<close>.
\<close>

definition conforms :: "(string \<Rightarrow> bool) \<Rightarrow> track_body \<Rightarrow> bool" where
  "conforms valid_url b =
     (8 \<le> length (trackerId b) \<and> length (trackerId b) \<le> 64 \<and>
      0 \<le> scrollDepth b \<and> scrollDepth b \<le> 100 \<and>
      valid_url (pageUrl b) \<and>
      is_integer (timestamp b) \<and> 0 < timestamp b \<and>
      opt_count (timeOnPage b) \<and>
      opt_count (totalTimeOnPage b) \<and>
      (case maxScrollDepth b of None \<Rightarrow> True | Some x \<Rightarrow> 0 \<le> x \<and> x \<le> 100) \<and>
      opt_count (scrollEvents b) \<and>
      (case body_engagement b of
         None \<Rightarrow> True
       | Some g \<Rightarrow>
           is_integer (eng_timeOnPage g) \<and> 0 \<le> eng_timeOnPage g \<and>
           0 \<le> eng_maxDepth g \<and> eng_maxDepth g \<le> 100 \<and>
           is_integer (eng_scrollEvents g) \<and> 0 \<le> eng_scrollEvents g \<and>
           0 \<le> eng_avgScrollSpeed g) \<and>
      (case device b of
         None \<Rightarrow> True
       | Some d \<Rightarrow>
           (case device_ua d of None \<Rightarrow> True | Some u \<Rightarrow> length u \<le> 512) \<and>
           opt_dimension (width d) \<and>
           opt_dimension (height d)))"

text \<open>\<open>x || null\<close> on an optional number and on an optional string: \<open>0\<close> and the
  empty string are falsy.\<close>

definition num_or_null :: "rat option \<Rightarrow> rat option" where
  "num_or_null v = (case v of None \<Rightarrow> None | Some x \<Rightarrow> if x = 0 then None else Some x)"

definition str_or_null :: "string option \<Rightarrow> string option" where
  "str_or_null v = (case v of None \<Rightarrow> None | Some x \<Rightarrow> if x = [] then None else Some x)"

text \<open>\<open>request.headers.get("x-forwarded-for") || request.headers.get("x-real-ip") ||
  "unknown"\<close>\<close>

definition caller_address :: "request \<Rightarrow> string" where
  "caller_address req =
     (case str_or_null (x_forwarded_for req) of
        Some a \<Rightarrow> a
      | None \<Rightarrow> (case str_or_null (x_real_ip req) of Some a \<Rightarrow> a | None \<Rightarrow> ''unknown''))"

text \<open>The object handed to \<open>insert\<close>.\<close>

definition inserted_row :: "request \<Rightarrow> track_body \<Rightarrow> scroll_event_row" where
  "inserted_row req b =
     \<lparr>row_tracker_id = trackerId b, row_scroll_depth = scrollDepth b,
      row_page_url = pageUrl b, row_occurred_at = timestamp b,
      row_time_on_page = num_or_null (timeOnPage b),
      row_total_time_on_page = num_or_null (totalTimeOnPage b),
      row_max_scroll_depth = num_or_null (maxScrollDepth b),
      row_scroll_events_count = num_or_null (scrollEvents b),
      row_engagement_data = body_engagement b,
      row_ua = (case device b of None \<Rightarrow> None | Some d \<Rightarrow> str_or_null (device_ua d)),
      row_viewport_w = (case device b of None \<Rightarrow> None | Some d \<Rightarrow> num_or_null (width d)),
      row_viewport_h = (case device b of None \<Rightarrow> None | Some d \<Rightarrow> num_or_null (height d)),
      row_ip_address = caller_address req\<rparr>"

text \<open>
  The handler \<open>POST\<close>, in the order of the code: \<open>request.json()\<close> (an exception is
  caught at the end and answered with 500); the schema (400); the tracker lookup, whose
  error is answered with 500 before the tracker is looked at; the missing tracker (404);
  the row to insert, where \<open>new Date(timestamp).toISOString()\<close> throws a \<open>RangeError\<close>
  for a time beyond 8640000000000000 ms (caught, 500); the insertion (500 on its error);
  and 204.
\<close>

definition POST :: "(string \<Rightarrow> bool) \<Rightarrow> db_faults \<Rightarrow> request \<Rightarrow> storage \<Rightarrow> response \<times> storage" where
  "POST valid_url faults req st =
     (case json req of
        Malformed \<Rightarrow> (ServerError_500 ''Server error'', st)
      | Mistyped \<Rightarrow> (BadRequest_400 ''Invalid payload'', st)
      | Fields b \<Rightarrow>
          if \<not> conforms valid_url b then (BadRequest_400 ''Invalid payload'', st)
          else if lookup_fails faults then (ServerError_500 ''Server error'', st)
          else if trackerId b \<notin> set (trackers st) then (NotFound_404 ''Unknown trackerId'', st)
          else if 8640000000000000 < timestamp b then (ServerError_500 ''Server error'', st)
          else if insert_fails faults then (ServerError_500 ''Server error'', st)
          else (NoContent_204,
                st\<lparr>scroll_events := scroll_events st @ [inserted_row req b]\<rparr>))"

section \<open>Sample inputs\<close>

text \<open>A session on a desktop browser: both session columns are set.\<close>

definition desktop_session :: event where
  "desktop_session =
     \<lparr>occurred_at = ''2024-01-01T00:00:00Z'', scroll_depth = 100,
      total_time_on_page = Some 12000, max_scroll_depth = Some 100,
      scroll_events_count = Some 5, ua = Some ''Mozilla/5.0 (X11; Linux x86_64)'',
      viewport_w = Some 1920, viewport_h = Some 1080, ip_address = Some ''10.0.0.40''\<rparr>"

text \<open>A row of which only the network address is set.\<close>

definition address_event :: "string \<Rightarrow> event" where
  "address_event a =
     \<lparr>occurred_at = ''2024-01-01T00:00:00Z'', scroll_depth = 0,
      total_time_on_page = None, max_scroll_depth = None, scroll_events_count = None,
      ua = None, viewport_w = None, viewport_h = None, ip_address = Some a\<rparr>"

text \<open>A page of height 700 in a window of height 600, pulled 50 pixels above its top
  (the elastic overscroll of touch browsers reports a negative \<open>pageYOffset\<close>).\<close>

definition overscrolled_page :: page_metrics where
  "overscrolled_page =
     \<lparr>pageYOffset = - 50, documentElement_scrollTop = - 50,
      body_scrollHeight = 700, documentElement_scrollHeight = 700,
      body_offsetHeight = 700, documentElement_offsetHeight = 700,
      body_clientHeight = 700, documentElement_clientHeight = 600,
      innerHeight = 600\<rparr>"

text \<open>A page of height 1600 in a window of height 600, scrolled down by 300 pixels.\<close>

definition scrolled_page :: page_metrics where
  "scrolled_page =
     \<lparr>pageYOffset = 300, documentElement_scrollTop = 300,
      body_scrollHeight = 1600, documentElement_scrollHeight = 1600,
      body_offsetHeight = 1600, documentElement_offsetHeight = 1600,
      body_clientHeight = 1600, documentElement_clientHeight = 600,
      innerHeight = 600\<rparr>"

text \<open>A row without a network address.\<close>

definition no_address_event :: event where
  "no_address_event =
     \<lparr>occurred_at = ''2024-01-01T00:00:00Z'', scroll_depth = 0,
      total_time_on_page = None, max_scroll_depth = None, scroll_events_count = None,
      ua = None, viewport_w = None, viewport_h = None, ip_address = None\<rparr>"

text \<open>A request whose body conforms to the schema, a storage with one other tracker, and
  the two outcomes of the tracker lookup.\<close>

definition sample_body :: track_body where
  "sample_body =
     \<lparr>trackerId = ''abcd1234'', scrollDepth = 50, pageUrl = ''https://example.com'',
      timestamp = 1700000000000, timeOnPage = None, totalTimeOnPage = None,
      maxScrollDepth = None, scrollEvents = None, body_engagement = None, device = None\<rparr>"

definition sample_request :: request where
  "sample_request =
     \<lparr>json = Fields sample_body, x_forwarded_for = Some ''203.0.113.7'', x_real_ip = None\<rparr>"

definition sample_storage :: storage where
  "sample_storage = \<lparr>trackers = [''wxyz9876''], scroll_events = []\<rparr>"

definition no_faults :: db_faults where
  "no_faults = \<lparr>lookup_fails = False, insert_fails = False\<rparr>"

definition lookup_fault :: db_faults where
  "lookup_fault = \<lparr>lookup_fails = True, insert_fails = False\<rparr>"

section \<open>Properties of the number model\<close>

lemma powi_2_pos: "0 < (2::rat) powi e"
  by (simp add: power_int_def)

lemma powi_2_mono: "a \<le> b \<Longrightarrow> (2::rat) powi a \<le> 2 powi b"
  by (rule power_int_increasing) simp_all

lemma powi_2_strict_mono_rev: "(2::rat) powi a < 2 powi b \<Longrightarrow> a < b"
  by (metis not_less powi_2_mono leD)

lemma expo_unique_aux:
  assumes "(2::rat) powi e1 \<le> x" "x < 2 powi (e1 + 1)" "2 powi e2 \<le> x" "x < 2 powi (e2 + 1)"
  shows "e1 = e2"
proof -
  have "(2::rat) powi e1 < 2 powi (e2 + 1)" using assms by linarith
  then have a: "e1 < e2 + 1" by (rule powi_2_strict_mono_rev)
  have "(2::rat) powi e2 < 2 powi (e1 + 1)" using assms by linarith
  then have b: "e2 < e1 + 1" by (rule powi_2_strict_mono_rev)
  from a b show ?thesis by linarith
qed

lemma nat_frac_bounds:
  fixes p q :: nat
  assumes p: "0 < p" and q: "0 < q"
  defines "d \<equiv> int (floorlog 2 p) - int (floorlog 2 q)"
  shows "(2::rat) powi (d - 1) < of_nat p / of_nat q" "of_nat p / of_nat q < (2::rat) powi (d + 1)"
proof -
  let ?bp = "floorlog 2 p" and ?bq = "floorlog 2 q"
  have bp: "2 ^ (?bp - 1) \<le> p" "p < 2 ^ ?bp" using floorlog_bounds[of p 2] p by auto
  have bq: "2 ^ (?bq - 1) \<le> q" "q < 2 ^ ?bq" using floorlog_bounds[of q 2] q by auto
  have bp1: "1 \<le> ?bp" using p floorlog_eq_zero_iff[of 2 p] by (cases "?bp") auto
  have bq1: "1 \<le> ?bq" using q floorlog_eq_zero_iff[of 2 q] by (cases "?bq") auto
  have P1: "(2::rat) powi (int ?bp - 1) \<le> of_nat p"
  proof -
    have "(2::rat) ^ (?bp - 1) \<le> of_nat p"
      using bp(1) by (metis of_nat_le_iff of_nat_numeral of_nat_power)
    moreover have "int ?bp - 1 = int (?bp - 1)" using bp1 by simp
    ultimately show ?thesis by (simp only: power_int_of_nat)
  qed
  have P2: "of_nat p < (2::rat) powi (int ?bp)"
    using bp(2) by (metis of_nat_less_iff of_nat_numeral of_nat_power power_int_of_nat)
  have Q1: "(2::rat) powi (int ?bq - 1) \<le> of_nat q"
  proof -
    have "(2::rat) ^ (?bq - 1) \<le> of_nat q"
      using bq(1) by (metis of_nat_le_iff of_nat_numeral of_nat_power)
    moreover have "int ?bq - 1 = int (?bq - 1)" using bq1 by simp
    ultimately show ?thesis by (simp only: power_int_of_nat)
  qed
  have Q2: "of_nat q < (2::rat) powi (int ?bq)"
    using bq(2) by (metis of_nat_less_iff of_nat_numeral of_nat_power power_int_of_nat)
  have qpos: "(0::rat) < of_nat q" using q by simp
  have e1: "(2::rat) powi (d - 1) * 2 powi (int ?bq) = 2 powi (int ?bp - 1)"
  proof -
    have "(2::rat) powi (d - 1) * 2 powi (int ?bq) = 2 powi ((d - 1) + int ?bq)"
      by (rule power_int_add[symmetric]) simp
    moreover have "(d - 1) + int ?bq = int ?bp - 1" by (simp add: d_def)
    ultimately show ?thesis by (simp only:)
  qed
  have e2: "(2::rat) powi (d + 1) * 2 powi (int ?bq - 1) = 2 powi (int ?bp)"
  proof -
    have "(2::rat) powi (d + 1) * 2 powi (int ?bq - 1) = 2 powi ((d + 1) + (int ?bq - 1))"
      by (rule power_int_add[symmetric]) simp
    moreover have "(d + 1) + (int ?bq - 1) = int ?bp" by (simp add: d_def)
    ultimately show ?thesis by (simp only:)
  qed
  have "(2::rat) powi (d - 1) * of_nat q < 2 powi (d - 1) * 2 powi (int ?bq)"
    using Q2 powi_2_pos[of "d - 1"] by simp
  also have "\<dots> \<le> of_nat p" using e1 P1 by simp
  finally show "(2::rat) powi (d - 1) < of_nat p / of_nat q"
    using qpos by (simp add: pos_less_divide_eq)
  have "(of_nat p :: rat) < 2 powi (d + 1) * 2 powi (int ?bq - 1)" using e2 P2 by simp
  also have "\<dots> \<le> 2 powi (d + 1) * of_nat q"
    using Q1 powi_2_pos[of "d + 1"] by simp
  finally show "of_nat p / of_nat q < (2::rat) powi (d + 1)"
    using qpos by (simp add: pos_divide_less_eq)
qed

lemma expo_bounds:
  assumes "x \<noteq> 0"
  shows "2 powi expo x \<le> \<bar>x\<bar>" "\<bar>x\<bar> < 2 powi (expo x + 1)"
proof -
  obtain p q where pq: "quotient_of \<bar>x\<bar> = (p, q)" by (cases "quotient_of \<bar>x\<bar>")
  have q: "0 < q" using pq by (rule quotient_of_denom_pos)
  have xe: "\<bar>x\<bar> = of_int p / of_int q" using pq by (rule quotient_of_div)
  have p: "0 < p"
  proof -
    have "0 < \<bar>x\<bar>" using assms by simp
    then have "0 < (of_int p :: rat) / of_int q" using xe by simp
    then show ?thesis using q by (simp add: zero_less_divide_iff)
  qed
  define d where "d = int (floorlog 2 (nat p)) - int (floorlog 2 (nat q))"
  have xe': "\<bar>x\<bar> = of_nat (nat p) / of_nat (nat q)" using xe p q by simp
  have b: "(2::rat) powi (d - 1) < \<bar>x\<bar>" "\<bar>x\<bar> < (2::rat) powi (d + 1)"
    using nat_frac_bounds[of "nat p" "nat q"] p q unfolding xe' d_def by simp_all
  have ex: "expo x = (if 2 powi d \<le> \<bar>x\<bar> then d else d - 1)"
    by (simp add: expo_def pq d_def Let_def)
  show "2 powi expo x \<le> \<bar>x\<bar>" using b ex by auto
  show "\<bar>x\<bar> < 2 powi (expo x + 1)" using b ex by auto
qed

lemma powi_le_abs_nonzero:
  assumes "(2::rat) powi e \<le> \<bar>x\<bar>"
  shows "x \<noteq> 0"
proof
  assume "x = 0"
  then have "2 powi e \<le> (0::rat)" using assms by simp
  with powi_2_pos[of e] show False by linarith
qed

lemma expo_eqI:
  assumes "2 powi e \<le> \<bar>x\<bar>" "\<bar>x\<bar> < 2 powi (e + 1)"
  shows "expo x = e"
proof -
  have "x \<noteq> 0" using assms(1) by (rule powi_le_abs_nonzero)
  then show ?thesis using expo_bounds[of x] assms expo_unique_aux by blast
qed

lemma rne_error: "\<bar>of_int (rne m) - m\<bar> \<le> 1 / 2"
proof -
  define r where "r = m - of_int \<lfloor>m\<rfloor>"
  have r: "0 \<le> r" "r < 1" unfolding r_def by linarith+
  have m: "m = of_int \<lfloor>m\<rfloor> + r" unfolding r_def by simp
  consider "r < 1 / 2" | "1 / 2 < r" | "r = 1 / 2" by linarith
  then show ?thesis
  proof cases
    case 1
    then have "rne m = \<lfloor>m\<rfloor>" by (simp add: rne_def Let_def r_def)
    then show ?thesis using 1 r m by linarith
  next
    case 2
    then have "rne m = \<lfloor>m\<rfloor> + 1" by (simp add: rne_def Let_def r_def)
    then have "of_int (rne m) - m = 1 - r" using m by simp
    then show ?thesis using 2 r by linarith
  next
    case 3
    then have "rne m = \<lfloor>m\<rfloor> \<or> rne m = \<lfloor>m\<rfloor> + 1" by (simp add: rne_def Let_def r_def)
    then have "of_int (rne m) - m = - r \<or> of_int (rne m) - m = 1 - r" using m by auto
    then show ?thesis using 3 by auto
  qed
qed

lemma rne_of_int: "rne (of_int k) = k"
  by (simp add: rne_def)

lemma rne_mono: "a \<le> b \<Longrightarrow> rne a \<le> rne b"
proof -
  assume ab: "a \<le> b"
  have fm: "\<lfloor>a\<rfloor> \<le> \<lfloor>b\<rfloor>" using ab by (rule floor_mono)
  show ?thesis
  proof (cases "\<lfloor>a\<rfloor> = \<lfloor>b\<rfloor>")
    case True
    then show ?thesis using ab unfolding rne_def Let_def by auto
  next
    case False
    then have "\<lfloor>a\<rfloor> + 1 \<le> \<lfloor>b\<rfloor>" using fm by linarith
    moreover have "rne a \<le> \<lfloor>a\<rfloor> + 1" unfolding rne_def Let_def by auto
    moreover have "\<lfloor>b\<rfloor> \<le> rne b" unfolding rne_def Let_def by auto
    ultimately show ?thesis by linarith
  qed
qed

text \<open>Evaluating \<open>rne\<close> at a fraction by integer division.\<close>

lemma rne_frac:
  assumes "0 < b"
  shows "rne (of_int a / of_int b) =
    (let f = a div b; r = 2 * (a mod b)
     in if r < b then f else if b < r then f + 1 else if even f then f else f + 1)"
proof -
  have fl: "\<lfloor>(of_int a / of_int b :: rat)\<rfloor> = a div b" by (rule floor_divide_of_int_eq)
  have "(of_int a :: rat) = of_int (a div b) * of_int b + of_int (a mod b)"
    by (metis of_int_add of_int_mult div_mult_mod_eq)
  then have fr: "(of_int a / of_int b :: rat) - of_int (a div b) = of_int (a mod b) / of_int b"
    using assms by (simp add: field_simps)
  have c1: "(of_int (a mod b) / of_int b :: rat) < 1 / 2 \<longleftrightarrow> 2 * (a mod b) < b"
  proof -
    have "(of_int (a mod b) / of_int b :: rat) < 1 / 2
        \<longleftrightarrow> (of_int (2 * (a mod b)) :: rat) < of_int b"
      using assms by (simp add: field_simps)
    then show ?thesis by (simp only: of_int_less_iff)
  qed
  have c2: "1 / 2 < (of_int (a mod b) / of_int b :: rat) \<longleftrightarrow> b < 2 * (a mod b)"
  proof -
    have "1 / 2 < (of_int (a mod b) / of_int b :: rat)
        \<longleftrightarrow> (of_int b :: rat) < of_int (2 * (a mod b))"
      using assms by (simp add: field_simps)
    then show ?thesis by (simp only: of_int_less_iff)
  qed
  show ?thesis unfolding rne_def Let_def fl fr c1 c2 by simp
qed

lemma rne_numeral_div:
  "rne (numeral a / numeral b) =
    (let f = (numeral a :: int) div numeral b; r = 2 * ((numeral a :: int) mod numeral b)
     in if r < numeral b then f else if numeral b < r then f + 1
        else if even f then f else f + 1)"
  using rne_frac[of "numeral b" "numeral a"] by (simp only: of_int_numeral zero_less_numeral)

lemma fl_eqI:
  assumes "2 powi e \<le> \<bar>x\<bar>" "\<bar>x\<bar> < 2 powi (e + 1)"
  shows "fl x = of_int (rne (x / 2 powi (e - 52))) * 2 powi (e - 52)"
proof -
  have "x \<noteq> 0" using assms(1) by (rule powi_le_abs_nonzero)
  then show ?thesis using expo_eqI[OF assms] by (simp add: fl_def Let_def)
qed

text \<open>The relative error of one rounding is at most \<open>2 ^ -53\<close>.\<close>

lemma fl_error: "\<bar>fl x - x\<bar> \<le> \<bar>x\<bar> / 2 ^ 53"
proof (cases "x = 0")
  case True
  then show ?thesis by (simp add: fl_def)
next
  case False
  define u where "u = (2::rat) powi (expo x - 52)"
  have u: "0 < u" unfolding u_def by (rule powi_2_pos)
  have f: "fl x = of_int (rne (x / u)) * u" using False by (simp add: fl_def Let_def u_def)
  have "fl x - x = (of_int (rne (x / u)) - x / u) * u"
    using u by (simp add: f left_diff_distrib)
  then have "\<bar>fl x - x\<bar> = \<bar>of_int (rne (x / u)) - x / u\<bar> * u"
    using u by (simp add: abs_mult)
  also have "\<dots> \<le> 1 / 2 * u"
    using rne_error[of "x / u"] u by (simp only: mult_right_mono less_imp_le)
  also have "\<dots> = 2 powi expo x / 2 ^ 53"
    unfolding u_def by (simp add: power_int_diff)
  also have "\<dots> \<le> \<bar>x\<bar> / 2 ^ 53"
    using expo_bounds(1)[OF False] by (simp add: divide_right_mono)
  finally show ?thesis .
qed

lemma fl_pos_bounds:
  assumes "0 < x"
  shows "2 powi expo x \<le> fl x" "fl x \<le> 2 powi (expo x + 1)"
proof -
  define u where "u = (2::rat) powi (expo x - 52)"
  have u: "0 < u" unfolding u_def by (rule powi_2_pos)
  have x0: "x \<noteq> 0" using assms by simp
  have f: "fl x = of_int (rne (x / u)) * u" using x0 by (simp add: fl_def Let_def u_def)
  have b: "2 powi expo x \<le> x" "x < 2 powi (expo x + 1)"
    using expo_bounds[OF x0] assms by simp_all
  have lo: "(2::rat) ^ 52 * u = 2 powi expo x"
  proof -
    have "(2::rat) powi 52 * 2 powi (expo x - 52) = 2 powi (52 + (expo x - 52))"
      by (rule power_int_add[symmetric]) simp
    then show ?thesis by (simp add: u_def)
  qed
  have hi: "(2::rat) ^ 53 * u = 2 powi (expo x + 1)"
  proof -
    have "(2::rat) powi 53 * 2 powi (expo x - 52) = 2 powi (53 + (expo x - 52))"
      by (rule power_int_add[symmetric]) simp
    moreover have "53 + (expo x - 52) = expo x + 1" by simp
    ultimately show ?thesis by (simp add: u_def)
  qed
  have "(2::rat) ^ 52 \<le> x / u" using b(1) lo u by (simp add: pos_le_divide_eq)
  then have "rne (of_int (2 ^ 52)) \<le> rne (x / u)" by (intro rne_mono) simp
  then have "(2::int) ^ 52 \<le> rne (x / u)" by (simp only: rne_of_int)
  then have "(of_int ((2::int) ^ 52) :: rat) \<le> of_int (rne (x / u))"
    by (simp only: of_int_le_iff)
  then have "(2::rat) ^ 52 * u \<le> of_int (rne (x / u)) * u" using u by simp
  then show "2 powi expo x \<le> fl x" using lo f by simp
  have "x / u \<le> (2::rat) ^ 53" using b(2) hi u by (simp add: pos_divide_le_eq)
  then have "rne (x / u) \<le> rne (of_int (2 ^ 53))" by (intro rne_mono) simp
  then have "rne (x / u) \<le> (2::int) ^ 53" by (simp only: rne_of_int)
  then have "(of_int (rne (x / u)) :: rat) \<le> of_int ((2::int) ^ 53)"
    by (simp only: of_int_le_iff)
  then have "of_int (rne (x / u)) * u \<le> (2::rat) ^ 53 * u" using u by simp
  then show "fl x \<le> 2 powi (expo x + 1)" using hi f by simp
qed

lemma fl_nonneg: "0 \<le> x \<Longrightarrow> 0 \<le> fl x"
proof (cases "x = 0")
  case True
  then show ?thesis by (simp add: fl_def)
next
  case False
  assume "0 \<le> x"
  then have "0 < x" using False by simp
  then have "2 powi expo x \<le> fl x" by (rule fl_pos_bounds)
  then show ?thesis using powi_2_pos[of "expo x"] by linarith
qed

text \<open>Rounding is monotone on the non-negative numbers.\<close>

lemma fl_mono:
  assumes "0 \<le> x" "x \<le> y"
  shows "fl x \<le> fl y"
proof (cases "x = 0")
  case True
  then show ?thesis using assms fl_nonneg[of y] by (simp add: fl_def)
next
  case False
  then have x: "0 < x" using assms by simp
  then have y: "0 < y" using assms by simp
  have bx: "2 powi expo x \<le> x" "x < 2 powi (expo x + 1)"
    using expo_bounds[of x] x by simp_all
  have by': "2 powi expo y \<le> y" "y < 2 powi (expo y + 1)"
    using expo_bounds[of y] y by simp_all
  have "(2::rat) powi expo x < 2 powi (expo y + 1)" using bx by' assms by linarith
  then have le: "expo x \<le> expo y" using powi_2_strict_mono_rev by fastforce
  show ?thesis
  proof (cases "expo x = expo y")
    case True
    define u where "u = (2::rat) powi (expo x - 52)"
    have u: "0 < u" unfolding u_def by (rule powi_2_pos)
    have "x / u \<le> y / u" using assms u by (simp add: divide_right_mono)
    then have "rne (x / u) \<le> rne (y / u)" by (rule rne_mono)
    then have "(of_int (rne (x / u)) :: rat) * u \<le> of_int (rne (y / u)) * u" using u by simp
    then show ?thesis using x y True by (simp add: fl_def Let_def u_def)
  next
    case False
    then have "expo x + 1 \<le> expo y" using le by simp
    then have "(2::rat) powi (expo x + 1) \<le> 2 powi expo y" by (rule powi_2_mono)
    then show ?thesis using fl_pos_bounds(2)[OF x] fl_pos_bounds(1)[OF y] by linarith
  qed
qed

lemma Math_round_mono: "x \<le> y \<Longrightarrow> Math_round x \<le> Math_round y"
  by (simp add: Math_round_def floor_mono)

lemma Math_round_nonneg: "0 \<le> x \<Longrightarrow> 0 \<le> Math_round x"
  by (simp add: Math_round_def)

section \<open>Milestone statistics: properties\<close>

text \<open>
  The integer computed by \<open>Math.round((c / t) * 100)\<close> is a nearest integer to the exact
  ratio \<open>100 c / t\<close>: the two roundings of the double arithmetic are too small to move the
  value across a half-integer unless the exact ratio lies on one (a tie, where both
  neighbours are nearest).
\<close>

lemma pct_nearest:
  fixes c t :: nat
  assumes ct: "c \<le> t" and t0: "0 < t" and tb: "t < 2 ^ 32"
  shows "\<bar>of_int (Math_round (js_mul (js_div (of_nat c) (of_nat t)) 100)) - 100 * of_nat c / of_nat t\<bar>
           \<le> (1 / 2 :: rat)"
proof -
  define Cr :: rat where "Cr = of_nat c"
  define Tr :: rat where "Tr = of_nat t"
  define x where "x = Cr / Tr"
  define a where "a = fl x"
  define y where "y = fl (a * 100)"
  define r where "r = \<lfloor>y + 1 / 2\<rfloor>"
  define R :: rat where "R = of_int r"
  have Tpos: "0 < Tr" using t0 by (simp add: Tr_def)
  have Tlt: "Tr < 2 ^ 32"
  proof -
    have "(of_nat t :: rat) < of_nat (2 ^ 32)" using tb by (simp only: of_nat_less_iff)
    then show ?thesis by (simp add: Tr_def)
  qed
  have C0: "0 \<le> Cr" by (simp add: Cr_def)
  have CT: "Cr \<le> Tr" using ct by (simp add: Cr_def Tr_def)
  have x0: "0 \<le> x" using C0 Tpos by (simp add: x_def)
  have x1: "x \<le> 1" using CT Tpos by (simp add: x_def)
  have xT: "x * Tr = Cr" using Tpos by (simp add: x_def)
  define e :: rat where "e = 1 / 2 ^ 53"
  have e100: "e \<le> 1 / 100" by (simp add: e_def)
  have ea: "\<bar>a - x\<bar> \<le> e"
  proof -
    have "\<bar>a - x\<bar> \<le> \<bar>x\<bar> / 2 ^ 53" unfolding a_def by (rule fl_error)
    also have "\<dots> \<le> 1 / 2 ^ 53" using x0 x1 by (simp add: divide_right_mono)
    finally show ?thesis by (simp only: e_def)
  qed
  have a100: "\<bar>a * 100\<bar> \<le> 101" using ea x0 x1 e100 by linarith
  have ey: "\<bar>y - a * 100\<bar> \<le> 101 * e"
  proof -
    have "\<bar>y - a * 100\<bar> \<le> \<bar>a * 100\<bar> / 2 ^ 53" unfolding y_def by (rule fl_error)
    also have "\<dots> \<le> 101 / 2 ^ 53" using a100 by (simp only: divide_right_mono zero_le_numeral zero_le_power)
    finally show ?thesis by (simp add: e_def)
  qed
  have eyx: "\<bar>y - 100 * x\<bar> \<le> 201 * e"
    using ea ey by linarith
  have rb: "R \<le> y + 1 / 2" "y + 1 / 2 < R + 1"
    unfolding R_def r_def by linarith+
  have up: "R - 100 * x - 1 / 2 \<le> 201 * e" using rb(1) eyx by linarith
  have lo: "- (201 * e) < R - 100 * x + 1 / 2" using rb(2) eyx by linarith
  have T2: "0 < 2 * Tr" using Tpos by simp
  have small: "201 * e * (2 * Tr) < 1" using Tlt Tpos by (simp add: e_def)
  have "(R - 100 * x - 1 / 2) * (2 * Tr) \<le> 201 * e * (2 * Tr)"
    using up T2 by (intro mult_right_mono) simp_all
  then have "(R - 100 * x - 1 / 2) * (2 * Tr) < 1" using small by linarith
  moreover have "(R - 100 * x - 1 / 2) * (2 * Tr) = 2 * R * Tr - 200 * Cr - Tr"
    using xT by (simp add: algebra_simps)
  ultimately have "2 * R * Tr - 200 * Cr - Tr < 1" by simp
  then have "(of_int (2 * r * int t - 200 * int c - int t) :: rat) < of_int 1"
    by (simp add: R_def Tr_def Cr_def)
  then have "2 * r * int t - 200 * int c - int t < 1" by (simp only: of_int_less_iff)
  then have "2 * r * int t - 200 * int c - int t \<le> 0" by simp
  then have "(of_int (2 * r * int t - 200 * int c - int t) :: rat) \<le> of_int 0"
    by (simp only: of_int_le_iff)
  then have "2 * R * Tr - 200 * Cr - Tr \<le> 0" by (simp add: R_def Tr_def Cr_def)
  then have "(R - 100 * x - 1 / 2) * (2 * Tr) \<le> 0" using xT by (simp add: algebra_simps)
  then have U: "R - 100 * x - 1 / 2 \<le> 0" using T2 by (simp add: mult_le_0_iff)
  have "- (201 * e) * (2 * Tr) < (R - 100 * x + 1 / 2) * (2 * Tr)"
    using lo T2 by (intro mult_strict_right_mono) simp_all
  then have "- 1 < (R - 100 * x + 1 / 2) * (2 * Tr)" using small by linarith
  moreover have "(R - 100 * x + 1 / 2) * (2 * Tr) = 2 * R * Tr - 200 * Cr + Tr"
    using xT by (simp add: algebra_simps)
  ultimately have "- 1 < 2 * R * Tr - 200 * Cr + Tr" by simp
  then have "(of_int (- 1) :: rat) < of_int (2 * r * int t - 200 * int c + int t)"
    by (simp add: R_def Tr_def Cr_def)
  then have "- 1 < 2 * r * int t - 200 * int c + int t" by (simp only: of_int_less_iff)
  then have "0 \<le> 2 * r * int t - 200 * int c + int t" by simp
  then have "(of_int 0 :: rat) \<le> of_int (2 * r * int t - 200 * int c + int t)"
    by (simp only: of_int_le_iff)
  then have "0 \<le> 2 * R * Tr - 200 * Cr + Tr" by (simp add: R_def Tr_def Cr_def)
  then have "0 \<le> (R - 100 * x + 1 / 2) * (2 * Tr)" using xT by (simp add: algebra_simps)
  then have L: "0 \<le> R - 100 * x + 1 / 2" using T2 by (simp add: zero_le_mult_iff)
  have "\<bar>R - 100 * x\<bar> \<le> 1 / 2" using U L by linarith
  moreover have "100 * x = 100 * of_nat c / of_nat t" by (simp add: x_def Cr_def Tr_def)
  moreover have "R = of_int (Math_round (js_mul (js_div (of_nat c) (of_nat t)) 100))"
    by (simp add: R_def r_def y_def a_def x_def Cr_def Tr_def Math_round_def js_mul_def js_div_def)
  ultimately show ?thesis by simp
qed

lemma reached_antimono: "m1 \<le> m2 \<Longrightarrow> reached events m2 \<le> reached events m1"
proof (induction events)
  case Nil
  then show ?case by (simp add: reached_def)
next
  case (Cons e es)
  then show ?case by (auto simp: reached_def)
qed

lemma perc_antimono:
  assumes "m1 \<le> m2"
  shows "perc events m2 \<le> perc events m1"
proof -
  define t :: rat where "t = of_nat (total_of events)"
  have t: "0 < t" by (simp add: t_def total_of_def)
  have c: "(of_nat (reached events m2) :: rat) \<le> of_nat (reached events m1)"
    using reached_antimono[OF assms] by (simp only: of_nat_le_iff)
  have "(of_nat (reached events m2) :: rat) / t \<le> of_nat (reached events m1) / t"
    using c t by (simp add: divide_right_mono)
  moreover have "0 \<le> (of_nat (reached events m2) :: rat) / t" using t by simp
  ultimately have d: "js_div (of_nat (reached events m2)) t \<le> js_div (of_nat (reached events m1)) t"
    unfolding js_div_def by (intro fl_mono)
  have d0: "0 \<le> js_div (of_nat (reached events m2)) t"
    unfolding js_div_def using t by (intro fl_nonneg) simp
  have "js_mul (js_div (of_nat (reached events m2)) t) 100 \<le> js_mul (js_div (of_nat (reached events m1)) t) 100"
    unfolding js_mul_def using d d0 by (intro fl_mono) simp_all
  then show ?thesis unfolding perc_def t_def by (rule Math_round_mono)
qed

lemma reached_le_length: "reached events m \<le> length events"
  by (simp add: reached_def)

lemma perc_empty: "perc [] m = 0"
  by (simp add: perc_def reached_def js_div_def js_mul_def fl_def Math_round_def floor_eq_iff)


lemma reached_map:
  "reached events m = length (filter (\<lambda>d. m \<le> d) (map scroll_depth events))"
  by (simp add: reached_def filter_map comp_def)

lemma pct_2_3: "Math_round (js_mul (js_div 2 3) 100) = 67"
proof -
  have a: "fl (2 / 3) = 6004799503160661 / 9007199254740992"
  proof -
    have "fl (2 / 3) = of_int (rne (2 / 3 / 2 powi (-1 - 52))) * 2 powi (-1 - 52)"
      by (rule fl_eqI) simp_all
    also have "\<dots> = 6004799503160661 / 9007199254740992"
      by (simp add: rne_numeral_div)
    finally show ?thesis .
  qed
  have b: "fl (6004799503160661 / 9007199254740992 * 100) = 2345624805922133 / 35184372088832"
  proof -
    have "fl (6004799503160661 / 9007199254740992 * 100) =
        of_int (rne (6004799503160661 / 9007199254740992 * 100 / 2 powi (6 - 52))) * 2 powi (6 - 52)"
      by (rule fl_eqI) simp_all
    also have "\<dots> = 2345624805922133 / 35184372088832"
      by (simp add: rne_numeral_div)
    finally show ?thesis .
  qed
  have c: "\<lfloor>2345624805922133 / 35184372088832 + 1 / 2 :: rat\<rfloor> = 67"
    by (simp add: floor_eq_iff)
  show ?thesis unfolding js_mul_def js_div_def Math_round_def a b c by (rule refl)
qed

lemma pct_1_3: "Math_round (js_mul (js_div 1 3) 100) = 33"
proof -
  have a: "fl (1 / 3) = 6004799503160661 / 18014398509481984"
  proof -
    have "fl (1 / 3) = of_int (rne (1 / 3 / 2 powi (-2 - 52))) * 2 powi (-2 - 52)"
      by (rule fl_eqI) simp_all
    also have "\<dots> = 6004799503160661 / 18014398509481984"
      by (simp add: rne_numeral_div)
    finally show ?thesis .
  qed
  have b: "fl (6004799503160661 / 18014398509481984 * 100) = 2345624805922133 / 70368744177664"
  proof -
    have "fl (6004799503160661 / 18014398509481984 * 100) =
        of_int (rne (6004799503160661 / 18014398509481984 * 100 / 2 powi (5 - 52))) * 2 powi (5 - 52)"
      by (rule fl_eqI) simp_all
    also have "\<dots> = 2345624805922133 / 70368744177664"
      by (simp add: rne_numeral_div)
    finally show ?thesis .
  qed
  have c: "\<lfloor>2345624805922133 / 70368744177664 + 1 / 2 :: rat\<rfloor> = 33"
    by (simp add: floor_eq_iff)
  show ?thesis unfolding js_mul_def js_div_def Math_round_def a b c by (rule refl)
qed

text \<open>
  A tie: 23 of 40 events is exactly 57.5 percent. The quotient \<open>23 / 40\<close> is not a double,
  the rounded product is the double just below 57.5, and \<open>Math.round\<close> gives 57, the lower
  of the two nearest integers.
\<close>

lemma pct_23_40: "Math_round (js_mul (js_div 23 40) 100) = 57"
proof -
  have a: "fl (23 / 40) = 2589569785738035 / 4503599627370496"
  proof -
    have "fl (23 / 40) = of_int (rne (23 / 40 / 2 powi (-1 - 52))) * 2 powi (-1 - 52)"
      by (rule fl_eqI) simp_all
    also have "\<dots> = 2589569785738035 / 4503599627370496"
      by (simp add: rne_numeral_div)
    finally show ?thesis .
  qed
  have b: "fl (2589569785738035 / 4503599627370496 * 100) = 8092405580431359 / 140737488355328"
  proof -
    have "fl (2589569785738035 / 4503599627370496 * 100) =
        of_int (rne (2589569785738035 / 4503599627370496 * 100 / 2 powi (5 - 52))) * 2 powi (5 - 52)"
      by (rule fl_eqI) simp_all
    also have "\<dots> = 8092405580431359 / 140737488355328"
      by (simp add: rne_numeral_div)
    finally show ?thesis .
  qed
  have c: "\<lfloor>8092405580431359 / 140737488355328 + 1 / 2 :: rat\<rfloor> = 57"
    by (simp add: floor_eq_iff)
  show ?thesis unfolding js_mul_def js_div_def Math_round_def a b c by (rule refl)
qed

lemma milestones_20_60_100:
  assumes "map scroll_depth events = [20, 60, 100]"
  shows "milestoneStats events = \<lparr>p25 = 67, p50 = 67, p75 = 33, p100 = 33, total = 3\<rparr>"
proof -
  have "length (map scroll_depth events) = length [20, 60, 100 :: int]" by (simp only: assms)
  then have len: "length events = 3" by simp
  have t: "total_of events = 3" by (simp add: total_of_def len)
  have r: "reached events 25 = 2" "reached events 50 = 2" "reached events 75 = 1"
    "reached events 100 = 1"
    by (simp_all add: reached_map assms)
  have "perc events 25 = 67" "perc events 50 = 67" "perc events 75 = 33" "perc events 100 = 33"
    by (simp_all add: perc_def r t pct_2_3 pct_1_3)
  then show ?thesis by (simp add: milestoneStats_def len)
qed

text \<open>The count of the code, a filter and its length, is the number of positions of the
  list whose event has a scroll depth of at least \<open>m\<close>.\<close>

lemma reached_card:
  "reached events m = card {i. i < length events \<and> m \<le> scroll_depth (events ! i)}"
  unfolding reached_def by (rule length_filter_conv_card)

lemma perc_nearest_count:
  assumes "length events < 2 ^ 32" and "events \<noteq> []"
  shows "\<bar>of_int (perc events m)
           - 100 * of_nat (card {i. i < length events \<and> m \<le> scroll_depth (events ! i)})
             / of_nat (length events)\<bar> \<le> (1 / 2 :: rat)"
proof -
  have t: "total_of events = length events" using assms(2) by (simp add: total_of_def)
  have "0 < length events" using assms(2) by simp
  then have "\<bar>of_int (perc events m) - 100 * of_nat (reached events m) / of_nat (length events)\<bar>
      \<le> (1 / 2 :: rat)"
    unfolding perc_def t using pct_nearest[OF reached_le_length _ assms(1)] by simp
  then show ?thesis by (simp only: reached_card)
qed

text \<open>
  C1. For a loaded event set (a JavaScript array, so shorter than \<open>2 ^ 32\<close>) and each
  milestone \<open>m\<close> of 25, 50, 75 and 100, the milestone percentage is a nearest integer to
  \<open>100 * count / total\<close>, where \<open>count\<close> is the number of loaded events whose scroll depth
  is at least \<open>m\<close> and \<open>total\<close> is the number of loaded events; for the empty set the
  denominator is 1, no division by zero occurs and every percentage is 0.
\<close>

theorem milestone_percentages_nearest_integer:
  assumes "length events < 2 ^ 32"
  shows "(events \<noteq> [] \<longrightarrow>
           \<bar>of_int (p25 (milestoneStats events))
              - 100 * of_nat (card {i. i < length events \<and> 25 \<le> scroll_depth (events ! i)})
                / of_nat (length events)\<bar> \<le> (1 / 2 :: rat) \<and>
           \<bar>of_int (p50 (milestoneStats events))
              - 100 * of_nat (card {i. i < length events \<and> 50 \<le> scroll_depth (events ! i)})
                / of_nat (length events)\<bar> \<le> (1 / 2 :: rat) \<and>
           \<bar>of_int (p75 (milestoneStats events))
              - 100 * of_nat (card {i. i < length events \<and> 75 \<le> scroll_depth (events ! i)})
                / of_nat (length events)\<bar> \<le> (1 / 2 :: rat) \<and>
           \<bar>of_int (p100 (milestoneStats events))
              - 100 * of_nat (card {i. i < length events \<and> 100 \<le> scroll_depth (events ! i)})
                / of_nat (length events)\<bar> \<le> (1 / 2 :: rat)) \<and>
         (events = [] \<longrightarrow>
           total_of events = 1 \<and> p25 (milestoneStats events) = 0 \<and> p50 (milestoneStats events) = 0 \<and>
           p75 (milestoneStats events) = 0 \<and> p100 (milestoneStats events) = 0) \<and>
         total_of events \<noteq> 0 \<and> total (milestoneStats events) = length events"
proof -
  have a: "events \<noteq> [] \<longrightarrow>
           \<bar>of_int (p25 (milestoneStats events))
              - 100 * of_nat (card {i. i < length events \<and> 25 \<le> scroll_depth (events ! i)})
                / of_nat (length events)\<bar> \<le> (1 / 2 :: rat) \<and>
           \<bar>of_int (p50 (milestoneStats events))
              - 100 * of_nat (card {i. i < length events \<and> 50 \<le> scroll_depth (events ! i)})
                / of_nat (length events)\<bar> \<le> (1 / 2 :: rat) \<and>
           \<bar>of_int (p75 (milestoneStats events))
              - 100 * of_nat (card {i. i < length events \<and> 75 \<le> scroll_depth (events ! i)})
                / of_nat (length events)\<bar> \<le> (1 / 2 :: rat) \<and>
           \<bar>of_int (p100 (milestoneStats events))
              - 100 * of_nat (card {i. i < length events \<and> 100 \<le> scroll_depth (events ! i)})
                / of_nat (length events)\<bar> \<le> (1 / 2 :: rat)"
    using perc_nearest_count[OF assms] by (simp add: milestoneStats_def)
  have b: "events = [] \<longrightarrow>
           total_of events = 1 \<and> p25 (milestoneStats events) = 0 \<and> p50 (milestoneStats events) = 0 \<and>
           p75 (milestoneStats events) = 0 \<and> p100 (milestoneStats events) = 0"
    by (auto simp: milestoneStats_def perc_empty total_of_def)
  have c: "total_of events \<noteq> 0" by (simp add: total_of_def)
  have d: "total (milestoneStats events) = length events" by (simp add: milestoneStats_def)
  show ?thesis using a b c d by (intro conjI)
qed

theorem milestone_percentages_nearest_integer_witness:
  "length [depth_event 20, depth_event 60, depth_event 100] < 2 ^ 32 \<and>
   \<bar>of_int (p25 (milestoneStats [depth_event 20, depth_event 60, depth_event 100]))
      - 100 * of_nat (card {i. i < length [depth_event 20, depth_event 60, depth_event 100] \<and>
                              25 \<le> scroll_depth ([depth_event 20, depth_event 60, depth_event 100] ! i)})
        / of_nat (length [depth_event 20, depth_event 60, depth_event 100])\<bar> \<le> (1 / 2 :: rat)"
proof -
  have h: "length [depth_event 20, depth_event 60, depth_event 100] < 2 ^ 32" by simp
  have n: "[depth_event 20, depth_event 60, depth_event 100] \<noteq> []" by simp
  show ?thesis
    using milestone_percentages_nearest_integer[OF h] n h by blast
qed

text \<open>
  C2 (as amended). A dashboard loaded with exactly three events at scroll depths 20, 60 and
  100 yields \<open>p25 = 67\<close>, \<open>p50 = 67\<close>, \<open>p75 = 33\<close>, \<open>p100 = 33\<close> and \<open>total = 3\<close>:
  two of three events reach 25 and 50, and \<open>Math.round(66.67)\<close> is 67.
\<close>

theorem milestones_three_events:
  assumes "map scroll_depth events = [20, 60, 100]"
  shows "milestoneStats events = \<lparr>p25 = 67, p50 = 67, p75 = 33, p100 = 33, total = 3\<rparr>"
  using assms by (rule milestones_20_60_100)

theorem milestones_three_events_witness:
  "map scroll_depth [depth_event 20, depth_event 60, depth_event 100] = [20, 60, 100] \<and>
   milestoneStats [depth_event 20, depth_event 60, depth_event 100]
     = \<lparr>p25 = 67, p50 = 67, p75 = 33, p100 = 33, total = 3\<rparr>"
proof -
  have h: "map scroll_depth [depth_event 20, depth_event 60, depth_event 100] = [20, 60, 100]"
    by (simp add: depth_event_def)
  show ?thesis using h milestones_three_events[OF h] by (intro conjI)
qed

text \<open>
  C2 as stated fails: the three events at depths 20, 60 and 100 do not yield
  \<open>p25 = 66, p50 = 66\<close>.
\<close>

theorem milestones_three_events_not_66:
  "milestoneStats [depth_event 20, depth_event 60, depth_event 100]
     \<noteq> \<lparr>p25 = 66, p50 = 66, p75 = 33, p100 = 33, total = 3\<rparr>"
proof -
  have h: "map scroll_depth [depth_event 20, depth_event 60, depth_event 100] = [20, 60, 100]"
    by (simp add: depth_event_def)
  show ?thesis unfolding milestones_20_60_100[OF h] by simp
qed

text \<open>
  C4. For every event set the four milestone percentages are non-increasing in the
  milestone: \<open>p25 \<ge> p50 \<ge> p75 \<ge> p100\<close>.
\<close>

theorem milestone_percentages_non_increasing:
  "p100 (milestoneStats events) \<le> p75 (milestoneStats events) \<and>
   p75 (milestoneStats events) \<le> p50 (milestoneStats events) \<and>
   p50 (milestoneStats events) \<le> p25 (milestoneStats events)"
  by (simp add: milestoneStats_def perc_antimono)

section \<open>Device classification: properties\<close>

text \<open>Lower-casing does not change the canonical form of a code unit, so it does not
  change what a case-insensitive pattern matches.\<close>

lemma canonicalize_toLowerCase_unit: "canonicalize (toLowerCase_unit c) = canonicalize c"
proof -
  define n where "n = (of_char c :: nat)"
  have n: "n < 256" unfolding n_def by (rule nat_of_char_less_256)
  have m: "of_char (char_of (n + 32) :: char) = (n + 32) mod 256" by (simp only: of_char_of)
  show ?thesis
    unfolding canonicalize_def toLowerCase_unit_def Let_def n_def[symmetric]
    using n m by (auto simp: n_def[symmetric])
qed

lemma matches_at_toLowerCase: "matches_at pat (toLowerCase s) = matches_at pat s"
  by (induction pat s rule: matches_at.induct)
     (simp_all add: toLowerCase_def canonicalize_toLowerCase_unit)

lemma found_in_toLowerCase: "found_in pat (toLowerCase s) = found_in pat s"
proof (induction s)
  case Nil
  then show ?case by (simp add: toLowerCase_def)
next
  case (Cons c cs)
  have "matches_at pat (toLowerCase (c # cs)) = matches_at pat (c # cs)"
    by (rule matches_at_toLowerCase)
  then show ?case using Cons by (simp add: toLowerCase_def)
qed

lemma found_in_nonempty: "found_in (p # ps) s \<Longrightarrow> s \<noteq> []"
  by (cases s) simp_all

lemma ipad_is_tablet:
  assumes "found_in ''ipad'' u"
  shows "getDeviceType u w h = ''Tablet''"
proof -
  have "u \<noteq> []" using assms by (rule found_in_nonempty)
  moreover have "found_in ''ipad'' (toLowerCase u)" using assms by (simp only: found_in_toLowerCase)
  ultimately show ?thesis by (simp add: getDeviceType_def isTablet_re_def Let_def)
qed

text \<open>
  C5. \<open>getDeviceType\<close> is a function of the user-agent string, the viewport width and
  the viewport height alone: calls with equal arguments return equal results. Whenever
  \<open>/ipad/i\<close> matches the user-agent string, the result is \<open>Tablet\<close>, for every viewport
  width and height.
\<close>

theorem getDeviceType_pure_and_ipad_tablet:
  "(\<forall>u2 w2 h2. (u2, w2, h2) = (u, w, h) \<longrightarrow> getDeviceType u2 w2 h2 = getDeviceType u w h) \<and>
   (found_in ''ipad'' u \<longrightarrow> getDeviceType u w h = ''Tablet'')"
  using ipad_is_tablet by auto

theorem getDeviceType_pure_and_ipad_tablet_witness:
  "found_in ''ipad'' ''Mozilla/5.0 (iPad; CPU OS 16_0 like Mac OS X)'' \<and>
   getDeviceType ''Mozilla/5.0 (iPad; CPU OS 16_0 like Mac OS X)'' 1920 1080 = ''Tablet''"
proof -
  have h: "found_in ''ipad'' ''Mozilla/5.0 (iPad; CPU OS 16_0 like Mac OS X)''"
    by (simp add: canonicalize_def Let_def)
  show ?thesis
    using getDeviceType_pure_and_ipad_tablet[of "''Mozilla/5.0 (iPad; CPU OS 16_0 like Mac OS X)''" 1920 1080] h
    by blast
qed

section \<open>Per-device engagement statistics: properties\<close>

text \<open>
  \<open>getDeviceType\<close> returns capitalised names, and the keys of \<open>deviceGroups\<close> are
  in lower case: the lookup \<open>deviceGroups[deviceType]\<close> never finds a group, no session is
  pushed, and \<open>deviceStats\<close> keeps its initial zeros.
\<close>

lemma getDeviceType_range:
  "getDeviceType u w h \<in> {''Unknown'', ''Tablet'', ''Mobile'', ''Desktop''}"
  by (simp add: getDeviceType_def Let_def)

lemma deviceGroups_no_capitalised_key:
  "map_of deviceGroups_init (getDeviceType u w h) = None"
  using getDeviceType_range[of u w h] by (auto simp: deviceGroups_init_def)

lemma group_session_init: "group_session deviceGroups_init s = deviceGroups_init"
  by (simp add: group_session_def Let_def deviceGroups_no_capitalised_key)

lemma foldl_group_session_init: "foldl group_session deviceGroups_init ss = deviceGroups_init"
  by (induction ss) (simp_all add: group_session_init)

lemma deviceStats_never_filled: "deviceStats events = deviceStats_init"
  by (simp add: deviceStats_def Let_def foldl_group_session_init)
     (simp add: deviceGroups_init_def deviceStats_init_def)

text \<open>
  C3 (the code at the failing input). A loaded event set with one session on a desktop
  browser: the session is among the deduplicated sessions and is classified \<open>Desktop\<close>,
  yet the sessions total of \<open>desktop\<close> stays 0.
\<close>

theorem desktop_session_not_counted:
  "sessionData [desktop_session] = [desktop_session] \<and>
   getDeviceType (or_empty (ua desktop_session)) (of_int (or_zero (viewport_w desktop_session)))
     (of_int (or_zero (viewport_h desktop_session))) = ''Desktop'' \<and>
   map_of (deviceStats [desktop_session]) ''desktop''
     = Some \<lparr>sessions = 0, avgTime = 0, completionRate = 0, activeRate = 0\<rparr>"
proof -
  have a: "sessionData [desktop_session] = [desktop_session]"
    by (simp add: sessionData_def add_session_def desktop_session_def truthy_def)
  have b: "getDeviceType (or_empty (ua desktop_session)) (of_int (or_zero (viewport_w desktop_session)))
     (of_int (or_zero (viewport_h desktop_session))) = ''Desktop''"
    by (simp add: desktop_session_def or_empty_def or_zero_def getDeviceType_def toLowerCase_def
        toLowerCase_unit_def isMobile_re_def isTablet_re_def canonicalize_def Let_def)
  have c: "map_of (deviceStats [desktop_session]) ''desktop''
     = Some \<lparr>sessions = 0, avgTime = 0, completionRate = 0, activeRate = 0\<rparr>"
    by (simp add: deviceStats_never_filled deviceStats_init_def zero_metrics_def)
  show ?thesis using a b c by (intro conjI)
qed

section \<open>Pseudo-geolocation: properties\<close>

lemma select_loop_countries:
  "select_loop countries r 0 =
     (if r < 20 then Some (countries ! 0)
      else if r < 38 then Some (countries ! 1)
      else if r < 53 then Some (countries ! 2)
      else if r < 68 then Some (countries ! 3)
      else if r < 76 then Some (countries ! 4)
      else if r < 82 then Some (countries ! 5)
      else if r < 87 then Some (countries ! 6)
      else if r < 91 then Some (countries ! 7)
      else if r < 94 then Some (countries ! 8)
      else if r < 96 then Some (countries ! 9)
      else None)"
  by (simp add: countries_def)

lemma selected_US_iff:
  "code (selectedCountry r) = ''US'' \<longleftrightarrow> r < 20 \<or> 96 \<le> r"
  by (simp add: selectedCountry_def select_loop_countries) (simp add: countries_def)

lemma random_of_range: "0 \<le> random_of a \<and> random_of a < 100"
  by (simp add: random_of_def)

lemma random_of_10_0_0_40: "random_of ''10.0.0.40'' = 97"
  by (simp add: random_of_def ipHash_def ipHash_step_def toInt32_def)

text \<open>
  C10. The ten weights sum to 96. For every residue from 96 on the loop runs to its end
  without selecting, and the address keeps the initial default, the first entry \<open>US\<close>; so
  does every address whose residue \<open>Math.abs(ipHash) % 100\<close> is 96, 97, 98 or 99. Of the
  100 residues, \<open>US\<close> is selected for 24.
\<close>

theorem weights_sum_96_default_US:
  "sum_list (map weight countries) = 96 \<and> length countries = 10 \<and>
   weight (countries ! 0) = 20 \<and>
   (\<forall>r. 96 \<le> r \<longrightarrow> select_loop countries r 0 = None \<and> selectedCountry r = countries ! 0
        \<and> code (selectedCountry r) = ''US'') \<and>
   (\<forall>a e. random_of a \<in> {96, 97, 98, 99} \<longrightarrow>
        select_loop countries (random_of a) 0 = None \<and>
        country (user_of a e) = ''US'') \<and>
   card {r. 0 \<le> r \<and> r < 100 \<and> code (selectedCountry r) = ''US''} = 24"
proof -
  have s: "sum_list (map weight countries) = 96" by (simp add: countries_def)
  have l: "length countries = 10" by (simp add: countries_def)
  have w: "weight (countries ! 0) = 20" by (simp add: countries_def)
  have n: "select_loop countries r 0 = None \<and> selectedCountry r = countries ! 0
      \<and> code (selectedCountry r) = ''US''" if "96 \<le> r" for r
    using that by (simp add: selectedCountry_def select_loop_countries) (simp add: countries_def)
  have "{r. 0 \<le> r \<and> r < 100 \<and> code (selectedCountry r) = ''US''} = {0..<20} \<union> {96..<100::int}"
    by (auto simp: selected_US_iff)
  then have c: "card {r. 0 \<le> r \<and> r < 100 \<and> code (selectedCountry r) = ''US''} = 24"
    by (simp add: card_Un_disjoint)
  have a: "select_loop countries (random_of a) 0 = None \<and> country (user_of a e) = ''US''"
    if "random_of a \<in> {96, 97, 98, 99}" for a e
  proof -
    from that have "96 \<le> random_of a" by auto
    then have "select_loop countries (random_of a) 0 = None"
      "code (selectedCountry (random_of a)) = ''US''"
      using n by blast+
    then show ?thesis by (simp add: user_of_def)
  qed
  from n have n': "\<forall>r. 96 \<le> r \<longrightarrow> select_loop countries r 0 = None \<and>
      selectedCountry r = countries ! 0 \<and> code (selectedCountry r) = ''US''"
    by blast
  from a have a': "\<forall>a e. random_of a \<in> {96, 97, 98, 99} \<longrightarrow>
      select_loop countries (random_of a) 0 = None \<and> country (user_of a e) = ''US''"
    by blast
  show ?thesis using s l w n' a' c by (intro conjI)
qed

theorem weights_sum_96_default_US_witness:
  "random_of ''10.0.0.40'' \<in> {96, 97, 98, 99} \<and>
   select_loop countries (random_of ''10.0.0.40'') 0 = None \<and>
   country (user_of ''10.0.0.40'' (address_event ''10.0.0.40'')) = ''US''"
proof -
  have h: "random_of ''10.0.0.40'' \<in> {96, 97, 98, 99}" by (simp add: random_of_10_0_0_40)
  show ?thesis using weights_sum_96_default_US h by blast
qed

lemma collect_users_total:
  "\<forall>e\<in>set data. ip_address e \<noteq> None \<Longrightarrow> \<exists>m. collect_users data acc = Inr m"
  by (induction data arbitrary: acc) (auto split: option.splits)

lemma collect_users_inv:
  assumes "collect_users data acc = Inr m"
    and "distinct (map fst acc)"
    and "\<forall>(a, u)\<in>set acc. ip u = a \<and> country u = code (selectedCountry (random_of a))"
  shows "distinct (map fst m) \<and>
         (\<forall>(a, u)\<in>set m. ip u = a \<and> country u = code (selectedCountry (random_of a))) \<and>
         set (map fst m) = set (map fst acc) \<union> {a. Some a \<in> ip_address ` set data}"
  using assms
proof (induction data arbitrary: acc)
  case Nil
  then show ?case by simp
next
  case (Cons e es)
  from Cons.prems(1) obtain a where a: "ip_address e = Some a"
    by (cases "ip_address e") simp_all
  show ?case
  proof (cases "a \<in> set (map fst acc)")
    case True
    then have "collect_users es acc = Inr m" using Cons.prems(1) a by simp
    from Cons.IH[OF this Cons.prems(2,3)] True a show ?thesis by (auto simp: image_iff)
  next
    case False
    let ?acc = "acc @ [(a, user_of a e)]"
    have r: "collect_users es ?acc = Inr m" using Cons.prems(1) a False by simp
    have d: "distinct (map fst ?acc)" using Cons.prems(2) False by simp
    have i: "\<forall>(a, u)\<in>set ?acc. ip u = a \<and> country u = code (selectedCountry (random_of a))"
      using Cons.prems(3) by (auto simp: user_of_def)
    from Cons.IH[OF r d i] a show ?thesis by (auto simp: image_iff)
  qed
qed

lemma loadUserStats_props:
  assumes "\<forall>e\<in>set data. ip_address e \<noteq> None"
  shows "\<exists>us. loadUserStats data = Inr us \<and> distinct (map ip us) \<and>
           set (map ip us) = {a. Some a \<in> ip_address ` set data} \<and>
           (\<forall>u\<in>set us. country u = code (selectedCountry (random_of (ip u))))"
proof -
  obtain m where m: "collect_users data [] = Inr m" using collect_users_total[OF assms] by blast
  have inv: "distinct (map fst m)"
    "\<forall>(a, u)\<in>set m. ip u = a \<and> country u = code (selectedCountry (random_of a))"
    "set (map fst m) = {a. Some a \<in> ip_address ` set data}"
    using collect_users_inv[OF m] by simp_all
  have e: "map ip (map snd m) = map fst m" using inv(2) by (induction m) auto
  have "loadUserStats data = Inr (map snd m)" by (simp add: loadUserStats_def m)
  moreover have "distinct (map ip (map snd m))" unfolding e by (rule inv(1))
  moreover have "set (map ip (map snd m)) = {a. Some a \<in> ip_address ` set data}"
    unfolding e by (rule inv(3))
  moreover have "\<forall>u\<in>set (map snd m). country u = code (selectedCountry (random_of (ip u)))"
    using inv(2) by auto
  ultimately show ?thesis by blast
qed

text \<open>
  C6 (as amended). For loaded rows that all carry a network address string,
  \<open>loadUserStats\<close> returns a list with exactly one entry for each distinct address, and the
  country of an entry is a function of its address alone (the hash, its absolute value
  modulo 100, the cumulative-weight selection): two runs, on any two such row sets, give the
  same address the same country code.
\<close>

theorem country_assignment_deterministic:
  assumes "\<forall>e\<in>set data1. ip_address e \<noteq> None" and "\<forall>e\<in>set data2. ip_address e \<noteq> None"
  shows "\<exists>us1 us2. loadUserStats data1 = Inr us1 \<and> loadUserStats data2 = Inr us2 \<and>
           distinct (map ip us1) \<and>
           set (map ip us1) = {a. Some a \<in> ip_address ` set data1} \<and>
           (\<forall>u\<in>set us1. country u = code (selectedCountry (random_of (ip u)))) \<and>
           (\<forall>u1\<in>set us1. \<forall>u2\<in>set us2. ip u1 = ip u2 \<longrightarrow> country u1 = country u2)"
proof -
  obtain us1 where 1: "loadUserStats data1 = Inr us1" "distinct (map ip us1)"
    "set (map ip us1) = {a. Some a \<in> ip_address ` set data1}"
    "\<forall>u\<in>set us1. country u = code (selectedCountry (random_of (ip u)))"
    using loadUserStats_props[OF assms(1)] by blast
  obtain us2 where 2: "loadUserStats data2 = Inr us2"
    "\<forall>u\<in>set us2. country u = code (selectedCountry (random_of (ip u)))"
    using loadUserStats_props[OF assms(2)] by blast
  have "\<forall>u1\<in>set us1. \<forall>u2\<in>set us2. ip u1 = ip u2 \<longrightarrow> country u1 = country u2"
    using 1(4) 2(2) by simp
  then show ?thesis using 1 2(1) by blast
qed

theorem country_assignment_deterministic_witness:
  "list_all (\<lambda>e. ip_address e \<noteq> None)
     [address_event ''10.0.0.40'', address_event ''10.0.0.1'', address_event ''10.0.0.40''] \<and>
   list_all (\<lambda>e. ip_address e \<noteq> None)
     [address_event ''10.0.0.1'', address_event ''10.0.0.40''] \<and>
   (\<exists>us1 us2.
      loadUserStats [address_event ''10.0.0.40'', address_event ''10.0.0.1'', address_event ''10.0.0.40'']
        = Inr us1 \<and>
      loadUserStats [address_event ''10.0.0.1'', address_event ''10.0.0.40''] = Inr us2 \<and>
      distinct (map ip us1) \<and>
      (\<forall>u1\<in>set us1. \<forall>u2\<in>set us2. ip u1 = ip u2 \<longrightarrow> country u1 = country u2))"
proof -
  have h1: "\<forall>e\<in>set [address_event ''10.0.0.40'', address_event ''10.0.0.1'', address_event ''10.0.0.40''].
      ip_address e \<noteq> None"
    by (simp add: address_event_def)
  have h2: "\<forall>e\<in>set [address_event ''10.0.0.1'', address_event ''10.0.0.40'']. ip_address e \<noteq> None"
    by (simp add: address_event_def)
  have l1: "list_all (\<lambda>e. ip_address e \<noteq> None)
     [address_event ''10.0.0.40'', address_event ''10.0.0.1'', address_event ''10.0.0.40'']"
    using h1 by (simp only: list_all_iff)
  have l2: "list_all (\<lambda>e. ip_address e \<noteq> None)
     [address_event ''10.0.0.1'', address_event ''10.0.0.40'']"
    using h2 by (simp only: list_all_iff)
  show ?thesis
    using country_assignment_deterministic[OF h1 h2] l1 l2 by blast
qed

text \<open>
  C6 as stated fails for a loaded set with a row whose address is null: the \<open>forEach\<close>
  throws at that row, \<open>setUserStats\<close> is not reached, and the address of the other row
  receives no assignment.
\<close>

theorem null_address_no_assignment:
  "loadUserStats [no_address_event, address_event ''10.0.0.1''] = Inl TypeError \<and>
   \<not> (\<exists>us. loadUserStats [no_address_event, address_event ''10.0.0.1''] = Inr us \<and>
             ''10.0.0.1'' \<in> set (map ip us))"
  by (simp add: loadUserStats_def no_address_event_def)

section \<open>The tracking script: properties\<close>

lemma rne_numeral: "rne (numeral k) = numeral k"
  using rne_of_int[of "numeral k"] by simp

lemma rne_neg_numeral: "rne (- numeral k) = - numeral k"
  using rne_of_int[of "- numeral k"] by simp

lemma fl_100: "fl 100 = 100"
proof -
  have "fl 100 = of_int (rne (100 / 2 powi (6 - 52))) * 2 powi (6 - 52)"
    by (rule fl_eqI) simp_all
  also have "\<dots> = 100" by (simp add: rne_numeral power_int_minus)
  finally show ?thesis .
qed

lemma fl_neg_half: "fl (- (1 / 2)) = - (1 / 2)"
proof -
  have "fl (- (1 / 2)) = of_int (rne (- (1 / 2) / 2 powi (-1 - 52))) * 2 powi (-1 - 52)"
    by (rule fl_eqI) simp_all
  also have "\<dots> = - (1 / 2)" by (simp add: rne_neg_numeral power_int_minus)
  finally show ?thesis .
qed

lemma fl_neg_50: "fl (- 50) = - 50"
proof -
  have "fl (- 50) = of_int (rne (- 50 / 2 powi (5 - 52))) * 2 powi (5 - 52)"
    by (rule fl_eqI) simp_all
  also have "\<dots> = - 50" by (simp add: rne_neg_numeral power_int_minus)
  finally show ?thesis .
qed

lemma getScrollDepth_overscrolled: "getScrollDepth overscrolled_page = - 50"
proof -
  have t: "js_sub 700 600 = 100" by (simp add: js_sub_def fl_100)
  have d: "js_div (- 50) 100 = - (1 / 2)" by (simp add: js_div_def fl_neg_half)
  have m: "js_mul (- (1 / 2)) 100 = - 50" by (simp add: js_mul_def fl_neg_50)
  have r: "Math_round (- 50) = - 50" by (simp add: Math_round_def floor_eq_iff)
  show ?thesis
    by (simp add: getScrollDepth_def overscrolled_page_def js_or_def t d m r)
qed

lemma getScrollDepth_bounds:
  "getScrollDepth w \<le> 100 \<and>
   (0 \<le> js_or (js_or (pageYOffset w) (documentElement_scrollTop w)) 0 \<longrightarrow> 0 \<le> getScrollDepth w)"
proof -
  define scrollTop where "scrollTop = js_or (js_or (pageYOffset w) (documentElement_scrollTop w)) 0"
  define docHeight where "docHeight =
            max (body_scrollHeight w) (max (documentElement_scrollHeight w)
              (max (body_offsetHeight w) (max (documentElement_offsetHeight w)
                (max (body_clientHeight w) (documentElement_clientHeight w)))))"
  define winHeight where "winHeight = js_or (js_or (innerHeight w) (documentElement_clientHeight w)) 0"
  define total' where "total' = max (js_sub docHeight winHeight) 1"
  have g: "getScrollDepth w = min 100 (Math_round (js_mul (js_div scrollTop total') 100))"
    by (simp add: getScrollDepth_def Let_def scrollTop_def docHeight_def winHeight_def total'_def)
  have t: "0 < total'" by (simp add: total'_def)
  have up: "getScrollDepth w \<le> 100" by (simp add: g)
  have lo: "0 \<le> getScrollDepth w" if "0 \<le> scrollTop"
  proof -
    have "0 \<le> scrollTop / total'" using that t by simp
    then have "0 \<le> js_div scrollTop total'" unfolding js_div_def by (rule fl_nonneg)
    then have "0 \<le> js_div scrollTop total' * 100" by simp
    then have "0 \<le> js_mul (js_div scrollTop total') 100" unfolding js_mul_def by (rule fl_nonneg)
    then have "0 \<le> Math_round (js_mul (js_div scrollTop total') 100)" by (rule Math_round_nonneg)
    then show ?thesis by (simp add: g)
  qed
  show ?thesis using up lo unfolding scrollTop_def by blast
qed

lemma fl_one: "fl 1 = 1"
proof -
  have "fl 1 = of_int (rne (1 / 2 powi (0 - 52))) * 2 powi (0 - 52)"
    by (rule fl_eqI) simp_all
  also have "\<dots> = 1" by (simp add: rne_numeral power_int_minus)
  finally show ?thesis .
qed

lemma fl_error_mult: "\<bar>fl x - x\<bar> \<le> \<bar>x\<bar> * (1 / 2 ^ 53)"
  using fl_error[of x] by simp

lemma small_part:
  fixes z e :: rat
  assumes "0 \<le> z" "e \<le> 1 / 16"
  shows "z * e \<le> z / 16"
proof -
  have "z * e \<le> z * (1 / 16)" using assms by (intro mult_left_mono)
  then show ?thesis by simp
qed

lemma fl_nonpos: "x \<le> 0 \<Longrightarrow> fl x \<le> 0"
proof -
  assume x: "x \<le> 0"
  define e :: rat where "e = 1 / 2 ^ 53"
  have e16: "e \<le> 1 / 16" by (simp add: e_def)
  have "\<bar>fl x - x\<bar> \<le> \<bar>x\<bar> * e" unfolding e_def by (rule fl_error_mult)
  moreover have "\<bar>x\<bar> * e \<le> \<bar>x\<bar> / 16" using e16 by (intro small_part) simp_all
  ultimately show ?thesis using x by linarith
qed

lemma total_error:
  fixes x :: rat
  shows "1 \<le> max (fl x) 1 \<and> \<bar>max (fl x) 1 - max x 1\<bar> \<le> max x 1 * (1 / 2 ^ 53)"
proof (cases "1 \<le> x")
  case True
  have "fl 1 \<le> fl x" using True by (intro fl_mono) simp_all
  then have f: "1 \<le> fl x" by (simp only: fl_one)
  have "\<bar>fl x - x\<bar> \<le> \<bar>x\<bar> * (1 / 2 ^ 53)" by (rule fl_error_mult)
  moreover have "\<bar>x\<bar> = x" using True by simp
  moreover have "max (fl x) 1 = fl x" using f by simp
  moreover have "max x 1 = x" using True by simp
  ultimately show ?thesis by (simp only: f simp_thms)
next
  case False
  have "fl x \<le> 1"
  proof (cases "0 \<le> x")
    case True
    have "fl x \<le> fl 1" using True False by (intro fl_mono) simp_all
    then show ?thesis by (simp only: fl_one)
  next
    case False
    then have "fl x \<le> 0" by (intro fl_nonpos) simp
    then show ?thesis by simp
  qed
  then have "max (fl x) 1 = 1" by simp
  moreover have "max x 1 = 1" using False by simp
  ultimately show ?thesis by simp
qed

lemma depth_formula_error:
  fixes s t T :: rat
  assumes t1: "1 \<le> t" and T1: "1 \<le> T" and tT: "\<bar>t - T\<bar> \<le> T * (1 / 2 ^ 53)"
  shows "\<bar>fl (fl (s / t) * 100) - 100 * s / T\<bar> \<le> \<bar>100 * s / T\<bar> / 2 ^ 50"
proof -
  define e :: rat where "e = 1 / 2 ^ 53"
  have e0: "0 \<le> e" and e16: "e \<le> 1 / 16" by (simp_all add: e_def)
  define x where "x = s / t"
  define q where "q = 100 * s / T"
  define a where "a = fl x"
  define y where "y = fl (a * 100)"
  define Q where "Q = \<bar>q\<bar>"
  define A where "A = \<bar>100 * x\<bar>"
  define u where "u = Q * e"
  define v where "v = A * e"
  have Q0: "0 \<le> Q" by (simp add: Q_def)
  have A0: "0 \<le> A" by (simp add: A_def)
  have u0: "0 \<le> u" using Q0 e0 by (simp add: u_def)
  have v0: "0 \<le> v" using A0 e0 by (simp add: v_def)
  have ue: "u * e \<le> u / 16" using u0 e16 by (rule small_part)
  have ve: "v * e \<le> v / 16" using v0 e16 by (rule small_part)
  have tpos: "0 < t" using t1 by simp
  have Tpos: "0 < T" using T1 by simp
  have Te: "T * e \<le> T / 16" using Tpos e16 by (intro small_part) simp_all
  have tT': "\<bar>t - T\<bar> \<le> T * e" using tT by (simp only: e_def)
  have T2: "T \<le> 2 * t" using tT' Te T1 by linarith
  have xt: "x * t = s" using tpos by (simp add: x_def)
  have qT: "q * T = 100 * s" using Tpos by (simp add: q_def)
  have "(100 * x - q) * t = q * (T - t)"
    using xt qT by (simp add: algebra_simps)
  then have "\<bar>100 * x - q\<bar> * t = Q * \<bar>T - t\<bar>"
    using tpos by (metis Q_def abs_mult abs_of_pos)
  also have "\<dots> \<le> Q * (T * e)"
    using tT' Q0 by (intro mult_left_mono) (simp_all add: abs_minus_commute)
  also have "\<dots> \<le> Q * ((2 * t) * e)"
    using T2 Q0 e0 by (intro mult_left_mono mult_right_mono)
  also have "\<dots> = (2 * u) * t" by (simp add: u_def)
  finally have d1: "\<bar>100 * x - q\<bar> \<le> 2 * u"
    using tpos by (simp only: mult_le_cancel_right_pos)
  have AQ: "A \<le> Q + 2 * u" using d1 unfolding A_def Q_def by linarith
  have "A * e \<le> (Q + 2 * u) * e" using AQ e0 by (rule mult_right_mono)
  then have vu: "v \<le> u + 2 * (u * e)" by (simp add: v_def u_def algebra_simps)
  have ax: "\<bar>a - x\<bar> \<le> \<bar>x\<bar> * e" unfolding a_def e_def by (rule fl_error_mult)
  have "a * 100 - 100 * x = 100 * (a - x)" by simp
  then have "\<bar>a * 100 - 100 * x\<bar> = 100 * \<bar>a - x\<bar>" by (simp only: abs_mult abs_numeral)
  also have "\<dots> \<le> 100 * (\<bar>x\<bar> * e)" using ax by (intro mult_left_mono) simp_all
  also have "\<dots> = v" by (simp add: v_def A_def abs_mult)
  finally have d2: "\<bar>a * 100 - 100 * x\<bar> \<le> v" .
  have a100: "\<bar>a * 100\<bar> \<le> A + v" using d2 unfolding A_def by linarith
  have "\<bar>y - a * 100\<bar> \<le> \<bar>a * 100\<bar> * e" unfolding y_def e_def by (rule fl_error_mult)
  also have "\<dots> \<le> (A + v) * e" using a100 e0 by (rule mult_right_mono)
  also have "\<dots> = v + v * e" by (simp add: v_def algebra_simps)
  finally have d3: "\<bar>y - a * 100\<bar> \<le> v + v * e" .
  have "\<bar>y - q\<bar> \<le> 8 * u"
    using d1 d2 d3 vu ue ve u0 v0 by linarith
  moreover have "8 * u = Q / 2 ^ 50" by (simp add: u_def e_def)
  ultimately show ?thesis by (simp only: y_def a_def x_def q_def Q_def)
qed

lemma getScrollDepth_unfold:
  "getScrollDepth w =
     min 100 (Math_round (js_mul (js_div (scrollTop_of w)
        (max (js_sub (docHeight_of w) (winHeight_of w)) 1)) 100))"
  by (simp add: getScrollDepth_def Let_def scrollTop_of_def docHeight_of_def winHeight_of_def)

lemma getScrollDepth_formula:
  "\<exists>r. getScrollDepth w = min 100 r \<and>
       \<bar>of_int r - 100 * scrollTop_of w / max (docHeight_of w - winHeight_of w) 1\<bar>
         \<le> 1 / 2 + \<bar>100 * scrollTop_of w / max (docHeight_of w - winHeight_of w) 1\<bar> / 2 ^ 50"
proof -
  define s where "s = scrollTop_of w"
  define T where "T = max (docHeight_of w - winHeight_of w) 1"
  define t where "t = max (js_sub (docHeight_of w) (winHeight_of w)) 1"
  define y where "y = fl (fl (s / t) * 100)"
  define r where "r = Math_round y"
  have te: "1 \<le> t \<and> \<bar>t - T\<bar> \<le> T * (1 / 2 ^ 53)"
    unfolding t_def T_def js_sub_def by (rule total_error)
  have T1: "1 \<le> T" by (simp add: T_def)
  have e: "\<bar>y - 100 * s / T\<bar> \<le> \<bar>100 * s / T\<bar> / 2 ^ 50"
    unfolding y_def using te T1 by (intro depth_formula_error) simp_all
  have "of_int r \<le> y + 1 / 2" "y + 1 / 2 < of_int r + 1"
    unfolding r_def Math_round_def by linarith+
  then have "\<bar>of_int r - y\<bar> \<le> 1 / 2" by linarith
  then have b: "\<bar>of_int r - 100 * s / T\<bar> \<le> 1 / 2 + \<bar>100 * s / T\<bar> / 2 ^ 50"
    using e by linarith
  have "getScrollDepth w = min 100 r"
    by (simp add: getScrollDepth_unfold r_def y_def t_def s_def js_mul_def js_div_def)
  then show ?thesis using b unfolding s_def T_def by blast
qed

text \<open>
  C7 (as amended). \<open>getScrollDepth\<close> returns \<open>min(100, r)\<close>, where the integer \<open>r\<close> is
  \<open>scrollTop / max(docHeight - winHeight, 1) * 100\<close> rounded: \<open>r\<close> differs from the exact
  value of that quotient by at most one half and the rounding error of the double
  arithmetic (a \<open>2 ^ -50\<close> part of the value). The depth is clamped from above only: it is
  at most 100 for every scroll offset, document height and window height, and it is at least
  0 whenever the scroll offset \<open>scrollTop\<close> is not negative.
\<close>

theorem getScrollDepth_formula_and_bounds:
  "(\<exists>r. getScrollDepth w = min 100 r \<and>
        \<bar>of_int r - 100 * scrollTop_of w / max (docHeight_of w - winHeight_of w) 1\<bar>
          \<le> 1 / 2 + \<bar>100 * scrollTop_of w / max (docHeight_of w - winHeight_of w) 1\<bar> / 2 ^ 50) \<and>
   getScrollDepth w \<le> 100 \<and>
   (0 \<le> scrollTop_of w \<longrightarrow> 0 \<le> getScrollDepth w)"
  using getScrollDepth_formula[of w] getScrollDepth_bounds[of w]
  unfolding scrollTop_of_def by blast

theorem getScrollDepth_formula_and_bounds_witness:
  "0 \<le> scrollTop_of scrolled_page \<and>
   0 \<le> getScrollDepth scrolled_page \<and> getScrollDepth scrolled_page \<le> 100"
proof -
  have h: "0 \<le> scrollTop_of scrolled_page"
    by (simp add: scrollTop_of_def scrolled_page_def js_or_def)
  show ?thesis using getScrollDepth_formula_and_bounds[of scrolled_page] h by blast
qed

text \<open>
  C7 as stated fails: with a negative scroll offset the returned depth is negative (here
  \<open>-50\<close>), so it does not lie in the range from 0 to 100.
\<close>

theorem getScrollDepth_negative_when_overscrolled:
  "\<not> (0 \<le> getScrollDepth overscrolled_page \<and> getScrollDepth overscrolled_page \<le> 100)"
  by (simp add: getScrollDepth_overscrolled)

lemma post_fields:
  "maxDepth (post d m s) = maxDepth s" "fired (post d m s) = fired s"
  by (simp_all add: post_def Let_def)

lemma milestone_events_post_None: "milestone_events m (post d None s) = milestone_events m s"
  by (simp add: milestone_events_def post_def Let_def)

lemma milestone_events_post_other:
  "x \<noteq> m \<Longrightarrow> milestone_events m (post d (Some x) s) = milestone_events m s"
  by (simp add: milestone_events_def post_def Let_def)

lemma milestone_events_post_same:
  "milestone_events m (post d (Some m) s) =
     milestone_events m s @
       [\<lparr>depth = d, milestone = Some m, engagement = Some (maxDepth s, Suc (scrollEvents_length s))\<rparr>]"
  by (simp add: milestone_events_def post_def Let_def)

lemma milestone_events_fired_update:
  "milestone_events m (s\<lparr>fired := F\<rparr>) = milestone_events m s"
  by (simp add: milestone_events_def)

lemma milestone_events_maxDepth_update:
  "milestone_events m (s\<lparr>maxDepth := d\<rparr>) = milestone_events m s"
  by (simp add: milestone_events_def)

lemma milestone_loop_maxDepth: "maxDepth (milestone_loop ms s) = maxDepth s"
  by (induction ms arbitrary: s) (simp_all add: post_fields)

lemma milestone_loop_fired:
  "fired (milestone_loop ms s) = fired s \<union> {x \<in> set ms. x \<le> maxDepth s}"
  by (induction ms arbitrary: s) (auto simp: post_fields)

lemma milestone_loop_skip:
  "\<not> (m \<in> set ms \<and> m \<le> maxDepth s \<and> m \<notin> fired s) \<Longrightarrow>
     milestone_events m (milestone_loop ms s) = milestone_events m s"
proof (induction ms arbitrary: s)
  case Nil
  then show ?case by simp
next
  case (Cons x xs)
  let ?s = "if x \<le> maxDepth s \<and> x \<notin> fired s
        then post (maxDepth s) (Some x) (s\<lparr>fired := insert x (fired s)\<rparr>) else s"
  have md: "maxDepth ?s = maxDepth s" by (simp add: post_fields)
  have fs: "fired s \<subseteq> fired ?s" by (auto simp: post_fields)
  have ev: "milestone_events m ?s = milestone_events m s"
  proof (cases "x \<le> maxDepth s \<and> x \<notin> fired s")
    case True
    then have "x \<noteq> m" using Cons.prems by auto
    then show ?thesis
      using True by (simp add: milestone_events_post_other milestone_events_fired_update)
  next
    case False
    then show ?thesis by auto
  qed
  have "\<not> (m \<in> set xs \<and> m \<le> maxDepth ?s \<and> m \<notin> fired ?s)"
    using Cons.prems md fs by auto
  then have "milestone_events m (milestone_loop xs ?s) = milestone_events m ?s" by (rule Cons.IH)
  then show ?case using ev by simp
qed

lemma milestone_loop_fire:
  "m \<in> set ms \<Longrightarrow> m \<le> maxDepth s \<Longrightarrow> m \<notin> fired s \<Longrightarrow>
     \<exists>k. milestone_events m (milestone_loop ms s) =
       milestone_events m s @
         [\<lparr>depth = maxDepth s, milestone = Some m, engagement = Some (maxDepth s, k)\<rparr>]"
proof (induction ms arbitrary: s)
  case Nil
  then show ?case by simp
next
  case (Cons x xs)
  let ?s = "if x \<le> maxDepth s \<and> x \<notin> fired s
        then post (maxDepth s) (Some x) (s\<lparr>fired := insert x (fired s)\<rparr>) else s"
  have md: "maxDepth ?s = maxDepth s" by (simp add: post_fields)
  have step: "milestone_loop (x # xs) s = milestone_loop xs ?s" by simp
  show ?case
  proof (cases "x = m")
    case True
    have s': "?s = post (maxDepth s) (Some m) (s\<lparr>fired := insert m (fired s)\<rparr>)"
      using True Cons.prems by simp
    have "m \<in> fired ?s" unfolding s' by (simp add: post_fields)
    then have "milestone_events m (milestone_loop xs ?s) = milestone_events m ?s"
      by (intro milestone_loop_skip) simp
    moreover have "milestone_events m ?s = milestone_events m s @
        [\<lparr>depth = maxDepth s, milestone = Some m,
          engagement = Some (maxDepth s, Suc (scrollEvents_length s))\<rparr>]"
      unfolding s' by (simp add: milestone_events_post_same milestone_events_fired_update)
    ultimately show ?thesis unfolding step by auto
  next
    case False
    then have mem: "m \<in> set xs" using Cons.prems by simp
    have ev: "milestone_events m ?s = milestone_events m s"
      using False by (simp add: milestone_events_post_other milestone_events_fired_update)
    have nf: "m \<notin> fired ?s" using False Cons.prems by (simp add: post_fields)
    have le: "m \<le> maxDepth ?s" using Cons.prems md by simp
    from Cons.IH[OF mem le nf] show ?thesis unfolding step ev md .
  qed
qed

lemma onScroll_maxDepth: "maxDepth (onScroll d s) = max (maxDepth s) d"
  by (simp add: onScroll_def milestone_loop_maxDepth post_fields)

lemma onScroll_fired:
  "fired (onScroll d s) =
     (if maxDepth s < d then fired s \<union> {x \<in> set MILESTONES. x \<le> d} else fired s)"
  by (simp add: onScroll_def milestone_loop_fired post_fields)

lemma onScroll_keeps:
  assumes "m \<in> fired s \<or> d < m"
  shows "milestone_events m (onScroll d s) = milestone_events m s"
proof (cases "maxDepth s < d")
  case True
  let ?s = "post d None (s\<lparr>maxDepth := d\<rparr>)"
  have "\<not> (m \<in> set MILESTONES \<and> m \<le> maxDepth ?s \<and> m \<notin> fired ?s)"
    using assms by (auto simp: post_fields)
  then have "milestone_events m (milestone_loop MILESTONES ?s) = milestone_events m ?s"
    by (rule milestone_loop_skip)
  then show ?thesis
    using True by (simp add: onScroll_def milestone_events_post_None milestone_events_maxDepth_update)
next
  case False
  then show ?thesis by (simp add: onScroll_def)
qed

lemma onScroll_fires:
  assumes "m \<in> set MILESTONES" "m \<notin> fired s" "maxDepth s < d" "m \<le> d"
  shows "\<exists>k. milestone_events m (onScroll d s) =
           milestone_events m s @ [\<lparr>depth = d, milestone = Some m, engagement = Some (d, k)\<rparr>]"
proof -
  let ?s = "post d None (s\<lparr>maxDepth := d\<rparr>)"
  have md: "maxDepth ?s = d" by (simp add: post_fields)
  have nf: "m \<notin> fired ?s" using assms(2) by (simp add: post_fields)
  have le: "m \<le> maxDepth ?s" using assms(4) md by simp
  have ev: "milestone_events m ?s = milestone_events m s"
    by (simp add: milestone_events_post_None milestone_events_maxDepth_update)
  have os: "onScroll d s = milestone_loop MILESTONES ?s" using assms(3) by (simp add: onScroll_def)
  from milestone_loop_fire[OF assms(1) le nf] show ?thesis unfolding os ev md .
qed

lemma page_view_snoc: "page_view (ds @ [d]) = onScroll d (page_view ds)"
  by (simp add: page_view_def)

lemma MILESTONES_pos: "m \<in> set MILESTONES \<Longrightarrow> 0 < m"
  by (auto simp: MILESTONES_def)

text \<open>While every observed depth is below \<open>m\<close>, the running maximum is below \<open>m\<close>, \<open>m\<close>
  has not fired and no milestone event for \<open>m\<close> has been sent.\<close>

lemma page_view_below:
  assumes "m \<in> set MILESTONES" "\<forall>x\<in>set ds. x < m"
  shows "maxDepth (page_view ds) < m \<and> m \<notin> fired (page_view ds) \<and>
         milestone_events m (page_view ds) = []"
  using assms(2)
proof (induction ds rule: rev_induct)
  case Nil
  then show ?case
    using MILESTONES_pos[OF assms(1)]
    by (simp add: page_view_def loaded_def post_fields milestone_events_post_None)
       (simp add: milestone_events_def)
next
  case (snoc d ds)
  then have IH: "maxDepth (page_view ds) < m" "m \<notin> fired (page_view ds)"
    "milestone_events m (page_view ds) = []" and d: "d < m"
    by simp_all
  have "maxDepth (page_view (ds @ [d])) < m"
    using IH(1) d by (simp add: page_view_snoc onScroll_maxDepth)
  moreover have "m \<notin> fired (page_view (ds @ [d]))"
    using IH(2) d by (simp add: page_view_snoc onScroll_fired)
  moreover have "milestone_events m (page_view (ds @ [d])) = []"
    using IH(3) d by (simp add: page_view_snoc onScroll_keeps)
  ultimately show ?case by simp
qed

text \<open>Once \<open>m\<close> has fired, no later callback sends a milestone event for \<open>m\<close>.\<close>

lemma fired_stable:
  assumes "m \<in> fired s"
  shows "m \<in> fired (foldl (\<lambda>s d. onScroll d s) s ds) \<and>
         milestone_events m (foldl (\<lambda>s d. onScroll d s) s ds) = milestone_events m s"
proof (induction ds rule: rev_induct)
  case Nil
  then show ?case using assms by simp
next
  case (snoc d ds)
  let ?t = "foldl (\<lambda>s d. onScroll d s) s ds"
  have f: "m \<in> fired ?t" and e: "milestone_events m ?t = milestone_events m s"
    using snoc by simp_all
  have "m \<in> fired (onScroll d ?t)" using f by (simp add: onScroll_fired)
  moreover have "milestone_events m (onScroll d ?t) = milestone_events m s"
    using onScroll_keeps[of m ?t d] f e by simp
  ultimately show ?case by simp
qed

lemma milestone_once:
  assumes m: "m \<in> set MILESTONES" and pre: "\<forall>x\<in>set pre. x < m" and d: "m \<le> d"
  shows "\<exists>k. \<forall>rest. milestone_events m (page_view (pre @ d # rest)) =
           [\<lparr>depth = d, milestone = Some m, engagement = Some (d, k)\<rparr>]"
proof -
  let ?s0 = "page_view pre"
  have b: "maxDepth ?s0 < m" "m \<notin> fired ?s0" "milestone_events m ?s0 = []"
    using page_view_below[OF m pre] by simp_all
  have lt: "maxDepth ?s0 < d" using b(1) d by simp
  obtain k where k: "milestone_events m (onScroll d ?s0) =
      [\<lparr>depth = d, milestone = Some m, engagement = Some (d, k)\<rparr>]"
    using onScroll_fires[OF m b(2) lt d] b(3) by auto
  have f: "m \<in> fired (onScroll d ?s0)" using lt m d by (simp add: onScroll_fired)
  have "milestone_events m (page_view (pre @ d # rest)) =
      [\<lparr>depth = d, milestone = Some m, engagement = Some (d, k)\<rparr>]" for rest
  proof -
    have "page_view (pre @ d # rest) = foldl (\<lambda>s d. onScroll d s) (onScroll d ?s0) rest"
      by (simp add: page_view_def)
    then show ?thesis using fired_stable[OF f, of rest] k by simp
  qed
  then show ?thesis by blast
qed

text \<open>
  C8. Within one page view and for each milestone \<open>m\<close> of 25, 50, 75 and 100: while every
  observed depth is below \<open>m\<close> no milestone event for \<open>m\<close> is sent; at the first
  callback whose depth reaches or exceeds \<open>m\<close> exactly one milestone event for \<open>m\<close> is
  sent, carrying the session engagement fields; and whatever callbacks follow, this stays the
  only milestone event for \<open>m\<close>.
\<close>

theorem milestone_event_sent_exactly_once:
  assumes "m \<in> set MILESTONES"
  shows "((\<forall>x\<in>set ds. x < m) \<longrightarrow> milestone_events m (page_view ds) = []) \<and>
         ((\<forall>x\<in>set pre. x < m) \<and> m \<le> d \<longrightarrow>
            (\<exists>k. \<forall>rest. milestone_events m (page_view (pre @ d # rest)) =
               [\<lparr>depth = d, milestone = Some m, engagement = Some (d, k)\<rparr>]))"
  using page_view_below[OF assms] milestone_once[OF assms] by blast

theorem milestone_event_sent_exactly_once_witness:
  "(50::int) \<in> set MILESTONES \<and> (10::int) < 50 \<and> (30::int) < 50 \<and> (50::int) \<le> 60 \<and>
   milestone_events 50 (page_view [10, 30]) = [] \<and>
   (\<exists>k. \<forall>rest. milestone_events 50 (page_view ([10, 30] @ 60 # rest)) =
      [\<lparr>depth = 60, milestone = Some 50, engagement = Some (60, k)\<rparr>])"
proof -
  have h1: "(50::int) \<in> set MILESTONES" by (simp add: MILESTONES_def)
  have h2: "\<forall>x\<in>set [10, 30 :: int]. x < 50" by simp
  have h3: "(50::int) \<le> 60" by simp
  have h4: "(10::int) < 50 \<and> (30::int) < 50" by simp
  show ?thesis
    using milestone_event_sent_exactly_once[OF h1, of "[10, 30]" "[10, 30]" 60] h1 h2 h3 h4
    by blast
qed

section \<open>The ingestion endpoint: properties\<close>

text \<open>
  C9 (as amended). A request whose body conforms to the schema and whose tracker id is not
  registered inserts no row and leaves the storage unchanged; it is answered with 404 and
  \<open>{error: "Unknown trackerId"}\<close> when the tracker lookup returns without an error, and
  with 500 and \<open>{error: "Server error"}\<close> when the lookup itself fails.
\<close>

theorem unknown_tracker_no_insert:
  assumes "json req = Fields b" and "conforms valid_url b"
    and "trackerId b \<notin> set (trackers st)"
  shows "POST valid_url faults req st =
           (if lookup_fails faults then ServerError_500 ''Server error''
            else NotFound_404 ''Unknown trackerId'', st)"
  using assms by (simp add: POST_def)

theorem unknown_tracker_no_insert_witness:
  "json sample_request = Fields sample_body \<and>
   conforms (\<lambda>u. u = ''https://example.com'') sample_body \<and>
   trackerId sample_body \<notin> set (trackers sample_storage) \<and>
   POST (\<lambda>u. u = ''https://example.com'') no_faults sample_request sample_storage
     = (NotFound_404 ''Unknown trackerId'', sample_storage)"
proof -
  have h0: "json sample_request = Fields sample_body" by (simp add: sample_request_def)
  have h1: "conforms (\<lambda>u. u = ''https://example.com'') sample_body"
    by (simp add: conforms_def sample_body_def opt_count_def is_integer_def)
  have h2: "trackerId sample_body \<notin> set (trackers sample_storage)"
    by (simp add: sample_body_def sample_storage_def)
  have f: "\<not> lookup_fails no_faults" by (simp add: no_faults_def)
  have "POST (\<lambda>u. u = ''https://example.com'') no_faults sample_request sample_storage
     = (NotFound_404 ''Unknown trackerId'', sample_storage)"
    using unknown_tracker_no_insert[OF h0 h1 h2, of no_faults] f by simp
  then show ?thesis using h0 h1 h2 by (intro conjI)
qed

text \<open>
  C9 as stated fails when the tracker lookup returns an error: the conforming request for
  the unregistered tracker is answered with 500, not with 404.
\<close>

theorem unknown_tracker_lookup_error_500:
  "conforms (\<lambda>u. u = ''https://example.com'') sample_body \<and>
   trackerId sample_body \<notin> set (trackers sample_storage) \<and>
   fst (POST (\<lambda>u. u = ''https://example.com'') lookup_fault sample_request sample_storage)
     \<noteq> NotFound_404 ''Unknown trackerId''"
  by (simp add: POST_def sample_request_def conforms_def sample_body_def opt_count_def
      is_integer_def sample_storage_def lookup_fault_def)

end
